theory Spec2Isabelle
  imports Main "HOL-Library.Word"
begin

section \<open>EventPerformanceLogger: the data model\<close>

text \<open>
  The embedding follows
  \<^verbatim>\<open>ReactCommon/react/renderer/observers/events/EventPerformanceLogger.cpp\<close>.
  The header that declares the classes is not part of the sources at hand, so the
  declarations the functions rely on are modelled from the specification and marked so.
\<close>

type_synonym SurfaceId = int

text \<open>Modelled from the spec: the type \<^verbatim>\<open>EventTag\<close> (declared in a header that is
  missing) is "an opaque, process-wide monotonically increasing integer identifier";
  it is an unbounded natural number here, and the reserved empty tag is 0.\<close>

type_synonym EventTag = nat

definition EMPTY_EVENT_TAG :: EventTag where
  "EMPTY_EVENT_TAG = 0"

text \<open>Modelled from the spec: \<^verbatim>\<open>HighResTimeStamp\<close> and the duration obtained by
  subtracting two of them (\<^verbatim>\<open>react/timing/primitives.h\<close> is missing) are integers
  counting clock ticks.\<close>

type_synonym HighResTimeStamp = int
type_synonym HighResDuration = int

type_synonym size_t = "64 word"

text \<open>An event target and a root shadow node are used through \<^verbatim>\<open>getSurfaceId()\<close>
  only. A shared pointer to one of them is an \<open>option\<close>: \<open>None\<close> is \<^verbatim>\<open>nullptr\<close>.\<close>

datatype EventTarget = EventTarget (getSurfaceId: SurfaceId)

datatype RootShadowNode = RootShadowNode (getRootSurfaceId: SurfaceId)

text \<open>Modelled from the spec: the struct \<^verbatim>\<open>EventEntry\<close> (declared in the missing header).
  The aggregate initialisation \<^verbatim>\<open>EventEntry{reportedName, target, timeStamp}\<close> fixes the
  first three fields; the others start at their defaults: no processing time stamps, not
  waiting for mount, no interaction id.\<close>

record EventEntry =
  name :: string
  target :: "EventTarget option"
  startTime :: HighResTimeStamp
  processingStartTime :: "HighResTimeStamp option"
  processingEndTime :: "HighResTimeStamp option"
  isWaitingForMount :: bool
  interactionId :: "nat option"

text \<open>Modelled from the spec: the member function \<^verbatim>\<open>EventEntry::isWaitingForDispatch\<close>
  (declared in the missing header): a record is "not yet ready to dispatch" when
  "processingStartTime or processingEndTime [is] still missing".\<close>

definition isWaitingForDispatch :: "EventEntry \<Rightarrow> bool" where
  "isWaitingForDispatch entry \<longleftrightarrow>
     processingStartTime entry = None \<or> processingEndTime entry = None"

text \<open>The six arguments of one call of \<^verbatim>\<open>PerformanceEntryReporter::reportEvent\<close>.\<close>

record ReportedEvent =
  evName :: string
  evStartTime :: HighResTimeStamp
  evDuration :: HighResDuration
  evProcessingStart :: HighResTimeStamp
  evProcessingEnd :: HighResTimeStamp
  evInteractionId :: "nat option"

text \<open>
  The state of one logger together with the sink it points to.
  \<^item> \<open>reporterAlive\<close>: whether \<^verbatim>\<open>performanceEntryReporter_.lock()\<close> yields a sink.
  \<^item> \<open>reported\<close>: the calls of \<^verbatim>\<open>reportEvent\<close> the sink has received from this logger,
    oldest first. Each call is kept next to the key of the table entry it was made for;
    the key is not an argument of \<^verbatim>\<open>reportEvent\<close>, it is recorded so that "reported at
    most once" can be stated.
  \<^item> \<open>eventsInFlight\<close>: the \<^verbatim>\<open>std::unordered_map<EventTag, EventEntry>\<close>, as an association
    list whose order is the iteration order of the map. The standard leaves that order
    open; the theorems below hold for every order.
  \<^item> \<open>sCurrentEventTag\<close>: the tag counter.
  The value \<^verbatim>\<open>getCurrentTimeStamp()\<close> returns is an input of every operation that
  reads the clock. The mutex is not modelled: every operation runs alone.
\<close>

record EventPerformanceLogger =
  reporterAlive :: bool
  reported :: "(EventTag \<times> ReportedEvent) list"
  eventsInFlight :: "(EventTag \<times> EventEntry) list"
  sCurrentEventTag :: EventTag

datatype error = AssertionFailed | BadOptionalAccess

text \<open>Modelled from the spec: the macro \<^verbatim>\<open>react_native_assert\<close>
  (\<^verbatim>\<open>react/debug/react_native_assert.h\<close> is missing) is "an assertion/fatal check in debug
  configurations" and nothing otherwise. The flag \<open>debug\<close> says which build runs.\<close>

definition react_native_assert :: "bool \<Rightarrow> bool \<Rightarrow> error + unit" where
  "react_native_assert debug cond = (if debug \<and> \<not> cond then Inl AssertionFailed else Inr ())"

text \<open>\<^verbatim>\<open>std::optional::value()\<close> throws \<^verbatim>\<open>std::bad_optional_access\<close> on an empty optional.\<close>

definition optional_value :: "'a option \<Rightarrow> error + 'a" where
  "optional_value x = (case x of None \<Rightarrow> Inl BadOptionalAccess | Some v \<Rightarrow> Inr v)"

section \<open>The helpers of the anonymous namespace\<close>

definition isTargetInRootShadowNode ::
  "EventTarget option \<Rightarrow> RootShadowNode option \<Rightarrow> bool" where
  "isTargetInRootShadowNode tgt rootShadowNode =
     (case tgt of
        None \<Rightarrow> False
      | Some t \<Rightarrow>
          (case rootShadowNode of
             None \<Rightarrow> False
           | Some r \<Rightarrow> getSurfaceId t = getRootSurfaceId r))"

definition hasPendingRenderingUpdates :: "EventTarget option \<Rightarrow> SurfaceId set \<Rightarrow> bool" where
  "hasPendingRenderingUpdates tgt surfaceIdsWithPendingRenderingUpdates =
     (case tgt of
        None \<Rightarrow> False
      | Some t \<Rightarrow> getSurfaceId t \<in> surfaceIdsWithPendingRenderingUpdates)"

text \<open>\<^verbatim>\<open>StrKey\<close> keeps the hash of the string and nothing else; two keys are equal when
  their hashes are. \<^verbatim>\<open>std::hash<std::string_view>\<close> is left to the implementation of the
  standard library, so it is a parameter \<open>hash\<close> of everything that builds a key.\<close>

datatype StrKey = StrKey (key: size_t)

definition mkStrKey :: "(string \<Rightarrow> size_t) \<Rightarrow> string \<Rightarrow> StrKey" where
  "mkStrKey hash s = StrKey (hash s)"

definition StrKeyHash :: "StrKey \<Rightarrow> size_t" where
  "StrKeyHash strKey = key strKey"

definition SUPPORTED_EVENTS :: "(string \<times> string) list" where
  "SUPPORTED_EVENTS =
    [(''topAuxClick'', ''auxclick''),
     (''topClick'', ''click''),
     (''topContextMenu'', ''contextmenu''),
     (''topDblClick'', ''dblclick''),
     (''topMouseDown'', ''mousedown''),
     (''topMouseEnter'', ''mouseenter''),
     (''topMouseLeave'', ''mouseleave''),
     (''topMouseOut'', ''mouseout''),
     (''topMouseOver'', ''mouseover''),
     (''topMouseUp'', ''mouseup''),
     (''topPointerOver'', ''pointerover''),
     (''topPointerEnter'', ''pointerenter''),
     (''topPointerDown'', ''pointerdown''),
     (''topPointerUp'', ''pointerup''),
     (''topPointerCancel'', ''pointercancel''),
     (''topPointerOut'', ''pointerout''),
     (''topPointerLeave'', ''pointerleave''),
     (''topGotPointerCapture'', ''gotpointercapture''),
     (''topLostPointerCapture'', ''lostpointercapture''),
     (''topTouchStart'', ''touchstart''),
     (''topTouchEnd'', ''touchend''),
     (''topTouchCancel'', ''touchcancel''),
     (''topKeyDown'', ''keydown''),
     (''topKeyPress'', ''keypress''),
     (''topKeyUp'', ''keyup''),
     (''topBeforeInput'', ''beforeinput''),
     (''topInput'', ''input''),
     (''topCompositionStart'', ''compositionstart''),
     (''topCompositionUpdate'', ''compositionupdate''),
     (''topCompositionEnd'', ''compositionend''),
     (''topDragStart'', ''dragstart''),
     (''topDragEnd'', ''dragend''),
     (''topDragEnter'', ''dragenter''),
     (''topDragLeave'', ''dragleave''),
     (''topDragOver'', ''dragover''),
     (''topDrop'', ''drop'')]"

text \<open>The registry is built from the initialiser list, each raw name turned into its
  \<^verbatim>\<open>StrKey\<close>. Were two keys of the list equal, the earlier pair would stay.\<close>

definition getSupportedEvents :: "(string \<Rightarrow> size_t) \<Rightarrow> (StrKey \<times> string) list" where
  "getSupportedEvents hash = map (\<lambda>(raw, public). (mkStrKey hash raw, public)) SUPPORTED_EVENTS"

text \<open>\<^verbatim>\<open>supportedEvents.find(name)\<close>: the name is converted to a \<^verbatim>\<open>StrKey\<close> and the
  entry with an equal key, if any, is found; \<open>None\<close> is \<^verbatim>\<open>end()\<close>.\<close>

definition find_supported :: "(string \<Rightarrow> size_t) \<Rightarrow> string \<Rightarrow> string option" where
  "find_supported hash nm = map_of (getSupportedEvents hash) (mkStrKey hash nm)"

section \<open>The entry points\<close>

definition createEventTag :: "EventPerformanceLogger \<Rightarrow> EventTag \<times> EventPerformanceLogger" where
  "createEventTag s =
     (let s' = s\<lparr>sCurrentEventTag := sCurrentEventTag s + 1\<rparr> in (sCurrentEventTag s', s'))"

text \<open>\<^verbatim>\<open>std::unordered_map::emplace\<close> inserts nothing when the key is present.\<close>

definition emplace ::
  "EventTag \<Rightarrow> EventEntry \<Rightarrow> (EventTag \<times> EventEntry) list \<Rightarrow> (EventTag \<times> EventEntry) list" where
  "emplace tag entry table = (if tag \<in> fst ` set table then table else (tag, entry) # table)"

definition newEventEntry :: "string \<Rightarrow> EventTarget option \<Rightarrow> HighResTimeStamp \<Rightarrow> EventEntry" where
  "newEventEntry reportedName tgt timeStamp =
     \<lparr>name = reportedName, target = tgt, startTime = timeStamp,
      processingStartTime = None, processingEndTime = None,
      isWaitingForMount = False, interactionId = None\<rparr>"

text \<open>\<open>now\<close> is what \<^verbatim>\<open>getCurrentTimeStamp()\<close> returns if it is called.\<close>

definition onEventStart ::
  "(string \<Rightarrow> size_t) \<Rightarrow> string \<Rightarrow> EventTarget option \<Rightarrow> HighResTimeStamp option \<Rightarrow>
   HighResTimeStamp \<Rightarrow> EventPerformanceLogger \<Rightarrow> EventTag \<times> EventPerformanceLogger" where
  "onEventStart hash nm tgt eventStartTimeStamp now s =
     (if \<not> reporterAlive s then (EMPTY_EVENT_TAG, s)
      else
        (case find_supported hash nm of
           None \<Rightarrow> (0, s)
         | Some reportedName \<Rightarrow>
             (let (eventTag, s1) = createEventTag s;
                  timeStamp = (case eventStartTimeStamp of Some t \<Rightarrow> t | None \<Rightarrow> now)
              in (eventTag,
                  s1\<lparr>eventsInFlight :=
                       emplace eventTag (newEventEntry reportedName tgt timeStamp)
                         (eventsInFlight s1)\<rparr>))))"

text \<open>\<^verbatim>\<open>eventsInFlight_.find(tag)\<close> followed by an assignment through the iterator.\<close>

fun update_entry ::
  "EventTag \<Rightarrow> (EventEntry \<Rightarrow> EventEntry) \<Rightarrow> (EventTag \<times> EventEntry) list \<Rightarrow>
   (EventTag \<times> EventEntry) list" where
  "update_entry tag f [] = []"
| "update_entry tag f ((t, entry) # rest) =
     (if t = tag then (t, f entry) # rest else (t, entry) # update_entry tag f rest)"

definition onEventProcessingStart ::
  "HighResTimeStamp \<Rightarrow> EventTag \<Rightarrow> EventPerformanceLogger \<Rightarrow> EventPerformanceLogger" where
  "onEventProcessingStart timeStamp tag s =
     (if \<not> reporterAlive s then s
      else
        (case map_of (eventsInFlight s) tag of
           None \<Rightarrow> s
         | Some entry \<Rightarrow>
             s\<lparr>eventsInFlight :=
                 update_entry tag (\<lambda>e. e\<lparr>processingStartTime := Some timeStamp\<rparr>)
                   (eventsInFlight s)\<rparr>))"

definition onEventProcessingEnd ::
  "bool \<Rightarrow> HighResTimeStamp \<Rightarrow> EventTag \<Rightarrow> EventPerformanceLogger \<Rightarrow>
   error + EventPerformanceLogger" where
  "onEventProcessingEnd debug timeStamp tag s =
     (if \<not> reporterAlive s then Inr s
      else
        (case map_of (eventsInFlight s) tag of
           None \<Rightarrow> Inr s
         | Some entry \<Rightarrow>
             (case react_native_assert debug (processingStartTime entry \<noteq> None) of
                Inl e \<Rightarrow> Inl e
              | Inr _ \<Rightarrow>
                  Inr (s\<lparr>eventsInFlight :=
                          update_entry tag (\<lambda>e. e\<lparr>processingEndTime := Some timeStamp\<rparr>)
                            (eventsInFlight s)\<rparr>))))"

text \<open>The two assertions and the call of \<^verbatim>\<open>reportEvent\<close> that both finalisation paths
  share; \<open>endTime\<close> is the time the duration is measured to. The result is the call the
  sink receives, next to the key of the entry.\<close>

definition reportEntry ::
  "bool \<Rightarrow> HighResTimeStamp \<Rightarrow> EventTag \<Rightarrow> EventEntry \<Rightarrow> error + (EventTag \<times> ReportedEvent)" where
  "reportEntry debug endTime tag entry =
     (case react_native_assert debug (processingStartTime entry \<noteq> None) of
        Inl e \<Rightarrow> Inl e
      | Inr _ \<Rightarrow>
     (case react_native_assert debug (processingEndTime entry \<noteq> None) of
        Inl e \<Rightarrow> Inl e
      | Inr _ \<Rightarrow>
     (case optional_value (processingStartTime entry) of
        Inl e \<Rightarrow> Inl e
      | Inr pStart \<Rightarrow>
     (case optional_value (processingEndTime entry) of
        Inl e \<Rightarrow> Inl e
      | Inr pEnd \<Rightarrow>
          Inr (tag,
               \<lparr>evName = name entry,
                evStartTime = startTime entry,
                evDuration = endTime - startTime entry,
                evProcessingStart = pStart,
                evProcessingEnd = pEnd,
                evInteractionId = interactionId entry\<rparr>)))))"

text \<open>The loop of \<^verbatim>\<open>dispatchPendingEventTimingEntries\<close> from the iterator position on.
  \<open>clock i\<close> is what the \<open>i\<close>-th call of \<^verbatim>\<open>getCurrentTimeStamp()\<close> from here on returns;
  \<open>rep\<close> is the log of the sink. The result is the rest of the table after the loop and
  the log.\<close>

fun dispatchLoop ::
  "bool \<Rightarrow> (nat \<Rightarrow> HighResTimeStamp) \<Rightarrow> SurfaceId set \<Rightarrow> (EventTag \<times> EventEntry) list \<Rightarrow>
   (EventTag \<times> ReportedEvent) list \<Rightarrow>
   error + ((EventTag \<times> EventEntry) list \<times> (EventTag \<times> ReportedEvent) list)" where
  "dispatchLoop debug clock pending [] rep = Inr ([], rep)"
| "dispatchLoop debug clock pending ((tag, entry) # rest) rep =
     (if isWaitingForDispatch entry \<or> isWaitingForMount entry then
        (case dispatchLoop debug clock pending rest rep of
           Inl e \<Rightarrow> Inl e
         | Inr (rest', rep') \<Rightarrow> Inr ((tag, entry) # rest', rep'))
      else if hasPendingRenderingUpdates (target entry) pending then
        (case dispatchLoop debug clock pending rest rep of
           Inl e \<Rightarrow> Inl e
         | Inr (rest', rep') \<Rightarrow> Inr ((tag, entry\<lparr>isWaitingForMount := True\<rparr>) # rest', rep'))
      else
        (case reportEntry debug (clock 0) tag entry of
           Inl e \<Rightarrow> Inl e
         | Inr ev \<Rightarrow> dispatchLoop debug (\<lambda>i. clock (Suc i)) pending rest (rep @ [ev])))"

definition dispatchPendingEventTimingEntries ::
  "bool \<Rightarrow> (nat \<Rightarrow> HighResTimeStamp) \<Rightarrow> SurfaceId set \<Rightarrow> EventPerformanceLogger \<Rightarrow>
   error + EventPerformanceLogger" where
  "dispatchPendingEventTimingEntries debug clock surfaceIdsWithPendingRenderingUpdates s =
     (if \<not> reporterAlive s then Inr s
      else
        (case dispatchLoop debug clock surfaceIdsWithPendingRenderingUpdates
                (eventsInFlight s) (reported s) of
           Inl e \<Rightarrow> Inl e
         | Inr (table, rep) \<Rightarrow> Inr (s\<lparr>eventsInFlight := table, reported := rep\<rparr>)))"

fun mountLoop ::
  "bool \<Rightarrow> RootShadowNode option \<Rightarrow> HighResTimeStamp \<Rightarrow> (EventTag \<times> EventEntry) list \<Rightarrow>
   (EventTag \<times> ReportedEvent) list \<Rightarrow>
   error + ((EventTag \<times> EventEntry) list \<times> (EventTag \<times> ReportedEvent) list)" where
  "mountLoop debug rootShadowNode mountTime [] rep = Inr ([], rep)"
| "mountLoop debug rootShadowNode mountTime ((tag, entry) # rest) rep =
     (if isWaitingForMount entry \<and> isTargetInRootShadowNode (target entry) rootShadowNode then
        (case reportEntry debug mountTime tag entry of
           Inl e \<Rightarrow> Inl e
         | Inr ev \<Rightarrow> mountLoop debug rootShadowNode mountTime rest (rep @ [ev]))
      else
        (case mountLoop debug rootShadowNode mountTime rest rep of
           Inl e \<Rightarrow> Inl e
         | Inr (rest', rep') \<Rightarrow> Inr ((tag, entry) # rest', rep')))"

definition shadowTreeDidMount ::
  "bool \<Rightarrow> RootShadowNode option \<Rightarrow> HighResTimeStamp \<Rightarrow> EventPerformanceLogger \<Rightarrow>
   error + EventPerformanceLogger" where
  "shadowTreeDidMount debug rootShadowNode mountTime s =
     (if \<not> reporterAlive s then Inr s
      else
        (case mountLoop debug rootShadowNode mountTime (eventsInFlight s) (reported s) of
           Inl e \<Rightarrow> Inl e
         | Inr (table, rep) \<Rightarrow> Inr (s\<lparr>eventsInFlight := table, reported := rep\<rparr>)))"

section \<open>Sequences of calls\<close>

text \<open>One call of an entry point with its arguments and the clock readings it gets, or
  one of two moves of the environment: the sink is destroyed (the weak pointer expires for
  good), or the process-wide tag counter is advanced on behalf of somebody else.\<close>

datatype call =
    OnEventStart string "EventTarget option" "HighResTimeStamp option" HighResTimeStamp
  | OnEventProcessingStart EventTag HighResTimeStamp
  | OnEventProcessingEnd EventTag HighResTimeStamp
  | DispatchPendingEventTimingEntries "SurfaceId set" "nat \<Rightarrow> HighResTimeStamp"
  | ShadowTreeDidMount "RootShadowNode option" HighResTimeStamp
  | ReporterDestroyed
  | TagCreatedElsewhere

fun step ::
  "(string \<Rightarrow> size_t) \<Rightarrow> bool \<Rightarrow> call \<Rightarrow> EventPerformanceLogger \<Rightarrow>
   error + EventPerformanceLogger" where
  "step hash debug (OnEventStart nm tgt ts now) s = Inr (snd (onEventStart hash nm tgt ts now s))"
| "step hash debug (OnEventProcessingStart tag now) s = Inr (onEventProcessingStart now tag s)"
| "step hash debug (OnEventProcessingEnd tag now) s = onEventProcessingEnd debug now tag s"
| "step hash debug (DispatchPendingEventTimingEntries pending clock) s =
     dispatchPendingEventTimingEntries debug clock pending s"
| "step hash debug (ShadowTreeDidMount root mountTime) s =
     shadowTreeDidMount debug root mountTime s"
| "step hash debug ReporterDestroyed s = Inr (s\<lparr>reporterAlive := False\<rparr>)"
| "step hash debug TagCreatedElsewhere s = Inr (snd (createEventTag s))"

fun run ::
  "(string \<Rightarrow> size_t) \<Rightarrow> bool \<Rightarrow> call list \<Rightarrow> EventPerformanceLogger \<Rightarrow>
   error + EventPerformanceLogger" where
  "run hash debug [] s = Inr s"
| "run hash debug (c # cs) s =
     (case step hash debug c s of Inl e \<Rightarrow> Inl e | Inr s' \<Rightarrow> run hash debug cs s')"

text \<open>A freshly constructed logger: the table is empty and nothing has been reported;
  the sink may be alive or not and the counter may stand anywhere.\<close>

definition newLogger :: "bool \<Rightarrow> EventTag \<Rightarrow> EventPerformanceLogger" where
  "newLogger alive n =
     \<lparr>reporterAlive = alive, reported = [], eventsInFlight = [], sCurrentEventTag = n\<rparr>"

definition reachable :: "(string \<Rightarrow> size_t) \<Rightarrow> bool \<Rightarrow> EventPerformanceLogger \<Rightarrow> bool" where
  "reachable hash debug s \<longleftrightarrow> (\<exists>cs alive n. run hash debug cs (newLogger alive n) = Inr s)"

section \<open>Notions used in the statements\<close>

text \<open>What \<^verbatim>\<open>reportEvent\<close> receives for an entry whose two processing time stamps are set,
  with the duration measured to \<open>endTime\<close>.\<close>

definition timing :: "HighResTimeStamp \<Rightarrow> EventEntry \<Rightarrow> ReportedEvent" where
  "timing endTime entry =
     \<lparr>evName = name entry, evStartTime = startTime entry,
      evDuration = endTime - startTime entry,
      evProcessingStart = the (processingStartTime entry),
      evProcessingEnd = the (processingEndTime entry),
      evInteractionId = interactionId entry\<rparr>"

text \<open>The entries for which the loop of \<^verbatim>\<open>dispatchPendingEventTimingEntries\<close> reaches its
  last branch.\<close>

definition dispatchable :: "SurfaceId set \<Rightarrow> EventEntry \<Rightarrow> bool" where
  "dispatchable pending entry \<longleftrightarrow>
     \<not> isWaitingForDispatch entry \<and> \<not> isWaitingForMount entry \<and>
     \<not> hasPendingRenderingUpdates (target entry) pending"

text \<open>What the loop of \<^verbatim>\<open>dispatchPendingEventTimingEntries\<close> does to an entry it keeps.\<close>

definition park :: "SurfaceId set \<Rightarrow> EventEntry \<Rightarrow> EventEntry" where
  "park pending entry =
     (if \<not> isWaitingForDispatch entry \<and> \<not> isWaitingForMount entry \<and>
         hasPendingRenderingUpdates (target entry) pending
      then entry\<lparr>isWaitingForMount := True\<rparr> else entry)"

text \<open>The entries for which the loop of \<^verbatim>\<open>shadowTreeDidMount\<close> takes its first branch.\<close>

definition mounted :: "RootShadowNode option \<Rightarrow> EventEntry \<Rightarrow> bool" where
  "mounted root entry \<longleftrightarrow>
     isWaitingForMount entry \<and> isTargetInRootShadowNode (target entry) root"

text \<open>The invariant of the logger: the keys of the table are distinct and so are the
  keys in the log of the sink, no key is beyond the counter, no key is in both, and an
  entry that waits for mount has both processing time stamps and a target.\<close>

definition loggerInv :: "EventPerformanceLogger \<Rightarrow> bool" where
  "loggerInv s \<longleftrightarrow>
     distinct (map fst (eventsInFlight s)) \<and>
     distinct (map fst (reported s)) \<and>
     (\<forall>t \<in> fst ` set (eventsInFlight s). t \<le> sCurrentEventTag s) \<and>
     (\<forall>t \<in> fst ` set (reported s). t \<le> sCurrentEventTag s) \<and>
     fst ` set (reported s) \<inter> fst ` set (eventsInFlight s) = {} \<and>
     (\<forall>(t, e) \<in> set (eventsInFlight s).
        isWaitingForMount e \<longrightarrow> \<not> isWaitingForDispatch e \<and> target e \<noteq> None)"

text \<open>
  The hash function to run the model with: \<^verbatim>\<open>std::hash<std::string_view>\<close> as libstdc++
  implements it where \<^verbatim>\<open>size_t\<close> has 64 bits, that is \<^verbatim>\<open>_Hash_bytes\<close> of
  \<^verbatim>\<open>libsupc++/hash_bytes.cc\<close> (a Murmur hash) called with the seed \<^verbatim>\<open>0xc70f6907\<close>.
  A block of bytes is read as a little-endian integer. The general theorems below hold for
  every hash function; this one is used wherever a value is computed.
\<close>

unbundle bit_operations_syntax

definition hash_mul :: size_t where
  "hash_mul = push_bit 32 0xc6a4a793 + 0x5bd1e995"

definition shift_mix :: "size_t \<Rightarrow> size_t" where
  "shift_mix v = v XOR drop_bit 47 v"

definition load_bytes :: "string \<Rightarrow> size_t" where
  "load_bytes p = foldr (\<lambda>c result. push_bit 8 result + of_nat (of_char c)) p 0"

function hash_loop :: "string \<Rightarrow> size_t \<Rightarrow> size_t" where
  "hash_loop buf hash =
     (if 8 \<le> length buf then
        hash_loop (drop 8 buf)
          ((hash XOR shift_mix (load_bytes (take 8 buf) * hash_mul) * hash_mul) * hash_mul)
      else if buf \<noteq> [] then (hash XOR load_bytes buf) * hash_mul
      else hash)"
  by pat_completeness auto
termination
  by (relation "measure (\<lambda>(buf, hash). length buf)") auto

definition Hash_bytes :: "string \<Rightarrow> size_t \<Rightarrow> size_t" where
  "Hash_bytes buf seed =
     shift_mix (shift_mix (hash_loop buf (seed XOR of_nat (length buf) * hash_mul)) * hash_mul)"

definition std_hash :: "string \<Rightarrow> size_t" where
  "std_hash s = Hash_bytes s 0xc70f6907"

text \<open>A record of a click on surface 1 that has been processed, and a logger that tracks
  it under tag 1 after its sink has gone.\<close>

definition processedClick :: EventEntry where
  "processedClick =
     \<lparr>name = ''click'', target = Some (EventTarget 1), startTime = 10,
      processingStartTime = Some 11, processingEndTime = Some 12,
      isWaitingForMount = False, interactionId = None\<rparr>"

definition orphanedLogger :: EventPerformanceLogger where
  "orphanedLogger =
     \<lparr>reporterAlive = False, reported = [], eventsInFlight = [(1, processedClick)],
      sCurrentEventTag = 1\<rparr>"

text \<open>A click on surface 1 from its start to the end of its processing, and the logger
  after these calls.\<close>

definition clickCalls :: "call list" where
  "clickCalls =
     [OnEventStart ''topClick'' (Some (EventTarget 1)) None 10,
      OnEventProcessingStart 1 11,
      OnEventProcessingEnd 1 12]"

definition clickLogger :: EventPerformanceLogger where
  "clickLogger =
     \<lparr>reporterAlive = True, reported = [], eventsInFlight = [(1, processedClick)],
      sCurrentEventTag = 1\<rparr>"

text \<open>The same logger after the click has been reported at time 13.\<close>

definition clickReported :: EventPerformanceLogger where
  "clickReported =
     \<lparr>reporterAlive = True, reported = [(1, timing 13 processedClick)], eventsInFlight = [],
      sCurrentEventTag = 1\<rparr>"

text \<open>Every report in \<open>new\<close> was made for an entry of \<open>table\<close> whose two processing time
  stamps were set, and carries them.\<close>

definition completeReports ::
  "(EventTag \<times> EventEntry) list \<Rightarrow> (EventTag \<times> ReportedEvent) list \<Rightarrow> bool" where
  "completeReports table new \<longleftrightarrow>
     (\<forall>(t, ev) \<in> set new.
        \<exists>e. (t, e) \<in> set table \<and>
            processingStartTime e = Some (evProcessingStart ev) \<and>
            processingEndTime e = Some (evProcessingEnd ev))"

text \<open>A second click, on no target, started with the explicit time stamp 5 after the first
  one has been processed, and the logger that tracks both.\<close>

definition unprocessedClick :: EventEntry where
  "unprocessedClick = newEventEntry ''click'' None 5"

definition twoLogger :: EventPerformanceLogger where
  "twoLogger =
     \<lparr>reporterAlive = True, reported = [],
      eventsInFlight = [(2, unprocessedClick), (1, processedClick)],
      sCurrentEventTag = 2\<rparr>"

text \<open>The logger of the two clicks after a dispatch during which surface 1 had pending
  updates: the first click is parked until its surface mounts.\<close>

definition parkedLogger :: EventPerformanceLogger where
  "parkedLogger =
     \<lparr>reporterAlive = True, reported = [],
      eventsInFlight =
        [(2, unprocessedClick), (1, processedClick\<lparr>isWaitingForMount := True\<rparr>)],
      sCurrentEventTag = 2\<rparr>"

text \<open>The click without a target after it has been processed too, and the logger that
  tracks it next to the first click.\<close>

definition processedNullClick :: EventEntry where
  "processedNullClick =
     \<lparr>name = ''click'', target = None, startTime = 5,
      processingStartTime = Some 14, processingEndTime = Some 15,
      isWaitingForMount = False, interactionId = None\<rparr>"

definition nullTargetLogger :: EventPerformanceLogger where
  "nullTargetLogger =
     \<lparr>reporterAlive = True, reported = [],
      eventsInFlight = [(2, processedNullClick), (1, processedClick)],
      sCurrentEventTag = 2\<rparr>"

text \<open>No record of the table has \<open>processingEndTime\<close> set while \<open>processingStartTime\<close>
  is not.\<close>

definition processingOrdered :: "EventPerformanceLogger \<Rightarrow> bool" where
  "processingOrdered s \<longleftrightarrow>
     (\<forall>(t, e) \<in> set (eventsInFlight s).
        processingEndTime e \<noteq> None \<longrightarrow> processingStartTime e \<noteq> None)"

text \<open>Every record the table holds under \<open>tag\<close> has \<open>processingStartTime\<close> set.\<close>

definition processingStarted :: "EventTag \<Rightarrow> EventPerformanceLogger \<Rightarrow> bool" where
  "processingStarted tag s \<longleftrightarrow>
     (\<forall>e. (tag, e) \<in> set (eventsInFlight s) \<longrightarrow> processingStartTime e \<noteq> None)"

section \<open>The two loops in closed form\<close>

lemma reportEntry_ready:
  "\<not> isWaitingForDispatch entry \<Longrightarrow> reportEntry debug t tag entry = Inr (tag, timing t entry)"
  by (auto simp: reportEntry_def isWaitingForDispatch_def react_native_assert_def
      optional_value_def timing_def)

lemma reportEntry_Inr:
  "reportEntry debug t tag entry = Inr ev \<Longrightarrow>
     \<not> isWaitingForDispatch entry \<and> ev = (tag, timing t entry)"
  by (auto simp: reportEntry_def isWaitingForDispatch_def react_native_assert_def
      optional_value_def timing_def split: if_splits option.splits)

lemma dispatchLoop_eq:
  "dispatchLoop debug clock pending table rep =
     Inr (map (\<lambda>(t, e). (t, park pending e)) (filter (\<lambda>(t, e). \<not> dispatchable pending e) table),
          rep @ map (\<lambda>(i, (t, e)). (t, timing (clock i) e))
                  (enumerate 0 (filter (\<lambda>(t, e). dispatchable pending e) table)))"
proof (induction table arbitrary: clock rep)
  case Nil
  show ?case by simp
next
  case (Cons p table)
  obtain tag entry where p: "p = (tag, entry)" by (cases p)
  show ?case
  proof (cases "dispatchable pending entry")
    case True
    then have r: "reportEntry debug (clock 0) tag entry = Inr (tag, timing (clock 0) entry)"
      by (simp add: dispatchable_def reportEntry_ready)
    have sh: "map (\<lambda>(i, (t, e)). (t, timing (clock (Suc i)) e)) (enumerate 0 xs) =
              map (\<lambda>(i, (t, e)). (t, timing (clock i) e)) (enumerate (Suc 0) xs)" for xs
      by (simp add: enumerate_Suc_eq[of 0] split_def)
    from True r show ?thesis
      using Cons.IH[of "\<lambda>i. clock (Suc i)" "rep @ [(tag, timing (clock 0) entry)]"]
      by (simp add: p dispatchable_def sh)
  next
    case False
    then show ?thesis
      using Cons.IH[of clock rep]
      by (auto simp: p dispatchable_def park_def)
  qed
qed

lemma mountLoop_eq:
  assumes "\<forall>(t, e) \<in> set table. mounted root e \<longrightarrow> \<not> isWaitingForDispatch e"
  shows "mountLoop debug root mountTime table rep =
     Inr (filter (\<lambda>(t, e). \<not> mounted root e) table,
          rep @ map (\<lambda>(t, e). (t, timing mountTime e)) (filter (\<lambda>(t, e). mounted root e) table))"
  using assms
proof (induction table arbitrary: rep)
  case Nil
  show ?case by simp
next
  case (Cons p table)
  obtain tag entry where p: "p = (tag, entry)" by (cases p)
  from Cons.prems have rest: "\<forall>(t, e) \<in> set table. mounted root e \<longrightarrow> \<not> isWaitingForDispatch e"
    by simp
  show ?case
  proof (cases "mounted root entry")
    case True
    with Cons.prems have "\<not> isWaitingForDispatch entry" by (simp add: p)
    then have "reportEntry debug mountTime tag entry = Inr (tag, timing mountTime entry)"
      by (rule reportEntry_ready)
    with True show ?thesis
      using Cons.IH[OF rest, of "rep @ [(tag, timing mountTime entry)]"]
      by (simp add: p mounted_def)
  next
    case False
    then show ?thesis
      using Cons.IH[OF rest, of rep] by (auto simp: p mounted_def)
  qed
qed

lemma map_fst_update_entry [simp]: "map fst (update_entry tag f table) = map fst table"
  by (induction table) auto

lemma set_update_entry:
  "(t, e) \<in> set (update_entry tag f table) \<Longrightarrow>
     (t, e) \<in> set table \<or> (t = tag \<and> (\<exists>e0. (tag, e0) \<in> set table \<and> e = f e0))"
  by (induction table) (auto split: if_splits)

lemma update_entry_other:
  "t \<noteq> tag \<Longrightarrow> (t, e) \<in> set table \<Longrightarrow> (t, e) \<in> set (update_entry tag f table)"
  by (induction table) auto

lemma update_entry_hit:
  "distinct (map fst table) \<Longrightarrow> (tag, e) \<in> set table \<Longrightarrow>
     (tag, f e) \<in> set (update_entry tag f table)"
  by (induction table) (auto simp: rev_image_eqI)

lemma map_fst_enumerate_timing:
  "map fst (map (\<lambda>(i, (t, e)). (t, g i e)) (enumerate n xs)) = map fst xs"
  by (induction xs arbitrary: n) auto

lemma map_fst_park:
  "map fst (map (\<lambda>(t, e). (t, g e)) xs) = map fst xs"
  by (induction xs) auto

lemma distinct_map_fst_filter:
  "distinct (map fst xs) \<Longrightarrow> distinct (map fst (filter P xs))"
  by (induction xs) auto

lemma filter_split_disjoint:
  "distinct (map fst xs) \<Longrightarrow>
     fst ` set (filter P xs) \<inter> fst ` set (filter (\<lambda>x. \<not> P x) xs) = {}"
  by (induction xs) (auto simp: rev_image_eqI)

lemma loggerInv_newLogger: "loggerInv (newLogger alive n)"
  by (simp add: loggerInv_def newLogger_def)

lemma loggerInv_onEventStart: "loggerInv s \<Longrightarrow> loggerInv (snd (onEventStart hash nm tgt ts now s))"
  by (auto simp: loggerInv_def onEventStart_def createEventTag_def emplace_def newEventEntry_def
      Let_def le_Suc_eq split: option.splits)

lemma parked_update_entry:
  assumes "\<forall>(t, e) \<in> set table. isWaitingForMount e \<longrightarrow> \<not> isWaitingForDispatch e \<and> target e \<noteq> None"
    and "\<And>e. isWaitingForMount (f e) = isWaitingForMount e"
    and "\<And>e. \<not> isWaitingForDispatch e \<Longrightarrow> \<not> isWaitingForDispatch (f e)"
    and "\<And>e. target (f e) = target e"
  shows "\<forall>(t, e) \<in> set (update_entry tag f table).
           isWaitingForMount e \<longrightarrow> \<not> isWaitingForDispatch e \<and> target e \<noteq> None"
  using assms(1)
proof (induction table)
  case Nil
  show ?case by simp
next
  case (Cons p table)
  obtain t e where p: "p = (t, e)" by (cases p)
  from Cons show ?case
    by (simp add: p assms(2-4))
qed

lemma loggerInv_update_entry:
  assumes "loggerInv s"
    and "\<And>e. isWaitingForMount (f e) = isWaitingForMount e"
    and "\<And>e. \<not> isWaitingForDispatch e \<Longrightarrow> \<not> isWaitingForDispatch (f e)"
    and "\<And>e. target (f e) = target e"
  shows "loggerInv (s\<lparr>eventsInFlight := update_entry tag f (eventsInFlight s)\<rparr>)"
proof -
  from assms(1) have
    "\<forall>(t, e) \<in> set (eventsInFlight s). isWaitingForMount e \<longrightarrow> \<not> isWaitingForDispatch e \<and> target e \<noteq> None"
    by (simp add: loggerInv_def)
  from parked_update_entry[OF this assms(2-4)] assms(1) show ?thesis
    by (simp add: loggerInv_def flip: set_map)
qed

lemma loggerInv_onEventProcessingStart: "loggerInv s \<Longrightarrow> loggerInv (onEventProcessingStart now tag s)"
  unfolding onEventProcessingStart_def
  by (auto split: option.splits intro!: loggerInv_update_entry simp: isWaitingForDispatch_def)

lemma loggerInv_onEventProcessingEnd:
  "loggerInv s \<Longrightarrow> onEventProcessingEnd debug now tag s = Inr s' \<Longrightarrow> loggerInv s'"
  unfolding onEventProcessingEnd_def
  by (auto split: option.splits sum.splits if_splits intro!: loggerInv_update_entry
      simp: isWaitingForDispatch_def)

lemma dispatch_Inr:
  "reporterAlive s \<Longrightarrow>
   dispatchPendingEventTimingEntries debug clock pending s =
     Inr (s\<lparr>eventsInFlight :=
              map (\<lambda>(t, e). (t, park pending e))
                (filter (\<lambda>(t, e). \<not> dispatchable pending e) (eventsInFlight s)),
            reported :=
              reported s @ map (\<lambda>(i, (t, e)). (t, timing (clock i) e))
                (enumerate 0 (filter (\<lambda>(t, e). dispatchable pending e) (eventsInFlight s)))\<rparr>)"
  by (simp add: dispatchPendingEventTimingEntries_def dispatchLoop_eq)

lemma park_facts:
  assumes "isWaitingForMount e \<longrightarrow> \<not> isWaitingForDispatch e \<and> target e \<noteq> None"
    and "isWaitingForMount (park pending e)"
  shows "\<not> isWaitingForDispatch (park pending e) \<and> target (park pending e) \<noteq> None"
  using assms
  by (auto simp: park_def isWaitingForDispatch_def hasPendingRenderingUpdates_def
      split: if_splits option.splits)

lemma loggerInv_dispatch:
  assumes "loggerInv s" and "dispatchPendingEventTimingEntries debug clock pending s = Inr s'"
  shows "loggerInv s'"
proof (cases "reporterAlive s")
  case False
  with assms show ?thesis by (simp add: dispatchPendingEventTimingEntries_def)
next
  case True
  let ?tbl = "eventsInFlight s"
  let ?P = "\<lambda>(t, e). dispatchable pending e"
  let ?N = "\<lambda>(t, e). \<not> dispatchable pending e"
  have N: "?N = (\<lambda>x. \<not> ?P x)" by auto
  from assms(2) True have tbl': "eventsInFlight s' = map (\<lambda>(t, e). (t, park pending e)) (filter ?N ?tbl)"
    and rep': "reported s' = reported s @ map (\<lambda>(i, (t, e)). (t, timing (clock i) e)) (enumerate 0 (filter ?P ?tbl))"
    and cnt': "sCurrentEventTag s' = sCurrentEventTag s"
    by (auto simp: dispatch_Inr)
  from assms(1) have d1: "distinct (map fst ?tbl)" and d2: "distinct (map fst (reported s))"
    and b1: "\<forall>t \<in> fst ` set ?tbl. t \<le> sCurrentEventTag s"
    and b2: "\<forall>t \<in> fst ` set (reported s). t \<le> sCurrentEventTag s"
    and dj: "fst ` set (reported s) \<inter> fst ` set ?tbl = {}"
    and pk: "\<forall>(t, e) \<in> set ?tbl. isWaitingForMount e \<longrightarrow> \<not> isWaitingForDispatch e \<and> target e \<noteq> None"
    by (simp_all add: loggerInv_def)
  have k1: "map fst (eventsInFlight s') = map fst (filter ?N ?tbl)"
    by (simp only: tbl' map_fst_park)
  have k2: "map fst (reported s') = map fst (reported s) @ map fst (filter ?P ?tbl)"
    by (simp only: rep' map_append map_fst_enumerate_timing)
  have sub1: "set (map fst (filter ?N ?tbl)) \<subseteq> fst ` set ?tbl"
    and sub2: "set (map fst (filter ?P ?tbl)) \<subseteq> fst ` set ?tbl"
    by auto
  have split: "set (map fst (filter ?P ?tbl)) \<inter> set (map fst (filter ?N ?tbl)) = {}"
    using filter_split_disjoint[OF d1, of ?P] by (simp add: N)
  have "distinct (map fst (eventsInFlight s'))"
    unfolding k1 by (rule distinct_map_fst_filter[OF d1])
  moreover have "distinct (map fst (reported s'))"
    unfolding k2 using d2 distinct_map_fst_filter[OF d1, of ?P] dj sub2 by auto
  moreover have "\<forall>t \<in> fst ` set (eventsInFlight s'). t \<le> sCurrentEventTag s'"
    using b1 sub1 k1 cnt' by (metis set_map subsetD)
  moreover have "\<forall>t \<in> fst ` set (reported s'). t \<le> sCurrentEventTag s'"
  proof
    fix t assume "t \<in> fst ` set (reported s')"
    then have "t \<in> set (map fst (reported s'))" by simp
    then have "t \<in> fst ` set (reported s) \<or> t \<in> fst ` set ?tbl"
      unfolding k2 using sub2 by auto
    with b1 b2 show "t \<le> sCurrentEventTag s'" by (auto simp: cnt')
  qed
  moreover have "fst ` set (reported s') \<inter> fst ` set (eventsInFlight s') = {}"
  proof -
    have "set (map fst (reported s')) \<inter> set (map fst (eventsInFlight s')) = {}"
      unfolding k1 k2 using dj sub1 split by auto
    then show ?thesis by simp
  qed
  moreover have "\<forall>(t, e) \<in> set (eventsInFlight s').
        isWaitingForMount e \<longrightarrow> \<not> isWaitingForDispatch e \<and> target e \<noteq> None"
    unfolding tbl' using pk park_facts by fastforce
  ultimately show ?thesis by (simp add: loggerInv_def)
qed

lemma mount_Inr:
  assumes "reporterAlive s"
    and "\<forall>(t, e) \<in> set (eventsInFlight s). isWaitingForMount e \<longrightarrow> \<not> isWaitingForDispatch e"
  shows "shadowTreeDidMount debug root mountTime s =
     Inr (s\<lparr>eventsInFlight := filter (\<lambda>(t, e). \<not> mounted root e) (eventsInFlight s),
            reported :=
              reported s @ map (\<lambda>(t, e). (t, timing mountTime e))
                (filter (\<lambda>(t, e). mounted root e) (eventsInFlight s))\<rparr>)"
proof -
  from assms(2) have "\<forall>(t, e) \<in> set (eventsInFlight s). mounted root e \<longrightarrow> \<not> isWaitingForDispatch e"
    by (auto simp: mounted_def)
  from mountLoop_eq[OF this] show ?thesis
    by (simp add: shadowTreeDidMount_def assms(1))
qed

lemma loggerInv_parked:
  "loggerInv s \<Longrightarrow>
     \<forall>(t, e) \<in> set (eventsInFlight s). isWaitingForMount e \<longrightarrow> \<not> isWaitingForDispatch e"
  by (auto simp: loggerInv_def)

lemma loggerInv_mount:
  assumes "loggerInv s" and "shadowTreeDidMount debug root mountTime s = Inr s'"
  shows "loggerInv s'"
proof (cases "reporterAlive s")
  case False
  with assms show ?thesis by (simp add: shadowTreeDidMount_def)
next
  case True
  let ?tbl = "eventsInFlight s"
  let ?P = "\<lambda>(t, e). mounted root e"
  let ?N = "\<lambda>(t, e). \<not> mounted root e"
  have N: "?N = (\<lambda>x. \<not> ?P x)" by auto
  from assms(2) mount_Inr[OF True loggerInv_parked[OF assms(1)], of debug root mountTime]
  have tbl': "eventsInFlight s' = filter ?N ?tbl"
    and rep': "reported s' = reported s @ map (\<lambda>(t, e). (t, timing mountTime e)) (filter ?P ?tbl)"
    and cnt': "sCurrentEventTag s' = sCurrentEventTag s"
    by auto
  from assms(1) have d1: "distinct (map fst ?tbl)" and d2: "distinct (map fst (reported s))"
    and b1: "\<forall>t \<in> fst ` set ?tbl. t \<le> sCurrentEventTag s"
    and b2: "\<forall>t \<in> fst ` set (reported s). t \<le> sCurrentEventTag s"
    and dj: "fst ` set (reported s) \<inter> fst ` set ?tbl = {}"
    and pk: "\<forall>(t, e) \<in> set ?tbl. isWaitingForMount e \<longrightarrow> \<not> isWaitingForDispatch e \<and> target e \<noteq> None"
    by (simp_all add: loggerInv_def)
  have k1: "map fst (eventsInFlight s') = map fst (filter ?N ?tbl)"
    by (simp only: tbl')
  have k2: "map fst (reported s') = map fst (reported s) @ map fst (filter ?P ?tbl)"
    by (simp only: rep' map_append map_fst_park)
  have sub1: "set (map fst (filter ?N ?tbl)) \<subseteq> fst ` set ?tbl"
    and sub2: "set (map fst (filter ?P ?tbl)) \<subseteq> fst ` set ?tbl"
    by auto
  have split: "set (map fst (filter ?P ?tbl)) \<inter> set (map fst (filter ?N ?tbl)) = {}"
    using filter_split_disjoint[OF d1, of ?P] by (simp add: N)
  have "distinct (map fst (eventsInFlight s'))"
    unfolding k1 by (rule distinct_map_fst_filter[OF d1])
  moreover have "distinct (map fst (reported s'))"
    unfolding k2 using d2 distinct_map_fst_filter[OF d1, of ?P] dj sub2 by auto
  moreover have "\<forall>t \<in> fst ` set (eventsInFlight s'). t \<le> sCurrentEventTag s'"
    using b1 sub1 k1 cnt' by (metis set_map subsetD)
  moreover have "\<forall>t \<in> fst ` set (reported s'). t \<le> sCurrentEventTag s'"
  proof
    fix t assume "t \<in> fst ` set (reported s')"
    then have "t \<in> set (map fst (reported s'))" by simp
    then have "t \<in> fst ` set (reported s) \<or> t \<in> fst ` set ?tbl"
      unfolding k2 using sub2 by auto
    with b1 b2 show "t \<le> sCurrentEventTag s'" by (auto simp: cnt')
  qed
  moreover have "fst ` set (reported s') \<inter> fst ` set (eventsInFlight s') = {}"
  proof -
    have "set (map fst (reported s')) \<inter> set (map fst (eventsInFlight s')) = {}"
      unfolding k1 k2 using dj sub1 split by auto
    then show ?thesis by simp
  qed
  moreover have "\<forall>(t, e) \<in> set (eventsInFlight s').
        isWaitingForMount e \<longrightarrow> \<not> isWaitingForDispatch e \<and> target e \<noteq> None"
    unfolding tbl' using pk by auto
  ultimately show ?thesis by (simp add: loggerInv_def)
qed

lemma loggerInv_step:
  "loggerInv s \<Longrightarrow> step hash debug c s = Inr s' \<Longrightarrow> loggerInv s'"
proof (cases c)
  case (OnEventStart nm tgt ts now)
  then show "loggerInv s \<Longrightarrow> step hash debug c s = Inr s' \<Longrightarrow> loggerInv s'"
    using loggerInv_onEventStart by auto
next
  case (OnEventProcessingStart tag now)
  then show "loggerInv s \<Longrightarrow> step hash debug c s = Inr s' \<Longrightarrow> loggerInv s'"
    using loggerInv_onEventProcessingStart by auto
next
  case (OnEventProcessingEnd tag now)
  then show "loggerInv s \<Longrightarrow> step hash debug c s = Inr s' \<Longrightarrow> loggerInv s'"
    using loggerInv_onEventProcessingEnd by auto
next
  case (DispatchPendingEventTimingEntries pending clock)
  then show "loggerInv s \<Longrightarrow> step hash debug c s = Inr s' \<Longrightarrow> loggerInv s'"
    using loggerInv_dispatch by auto
next
  case (ShadowTreeDidMount root mountTime)
  then show "loggerInv s \<Longrightarrow> step hash debug c s = Inr s' \<Longrightarrow> loggerInv s'"
    using loggerInv_mount by auto
next
  case ReporterDestroyed
  then show "loggerInv s \<Longrightarrow> step hash debug c s = Inr s' \<Longrightarrow> loggerInv s'"
    by (clarsimp simp: loggerInv_def)
next
  case TagCreatedElsewhere
  then show "loggerInv s \<Longrightarrow> step hash debug c s = Inr s' \<Longrightarrow> loggerInv s'"
    by (clarsimp simp: loggerInv_def createEventTag_def le_SucI)
qed

lemma loggerInv_run:
  "loggerInv s \<Longrightarrow> run hash debug cs s = Inr s' \<Longrightarrow> loggerInv s'"
proof (induction cs arbitrary: s)
  case Nil
  then show ?case by simp
next
  case (Cons c cs)
  then show ?case
    by (auto split: sum.splits dest: loggerInv_step)
qed

lemma loggerInv_reachable: "reachable hash debug s \<Longrightarrow> loggerInv s"
  unfolding reachable_def using loggerInv_run[OF loggerInv_newLogger] by blast

lemma run_append:
  "run hash debug (cs @ cs') s =
     (case run hash debug cs s of Inl e \<Rightarrow> Inl e | Inr s' \<Rightarrow> run hash debug cs' s')"
  by (induction cs arbitrary: s) (auto split: sum.splits)

lemma reachable_run:
  "reachable hash debug s \<Longrightarrow> run hash debug cs s = Inr s' \<Longrightarrow> reachable hash debug s'"
  unfolding reachable_def
  by (metis run_append sum.simps(6))

section \<open>Sink unavailable\<close>

text \<open>
  Claim C8. When the weak reference to the sink cannot be locked, every entry point returns
  at once and leaves the whole state, the table of records included, as it was:
  \<^verbatim>\<open>onEventStart\<close> returns the empty tag, the other four return without an error
  (in the debug build and in the release build alike).
\<close>

theorem sink_unavailable_noop:
  assumes "\<not> reporterAlive s"
  shows "onEventStart hash nm tgt ts now s = (EMPTY_EVENT_TAG, s) \<and>
         onEventProcessingStart now tag s = s \<and>
         onEventProcessingEnd debug now tag s = Inr s \<and>
         dispatchPendingEventTimingEntries debug clock pending s = Inr s \<and>
         shadowTreeDidMount debug root mountTime s = Inr s"
  using assms
  by (simp add: onEventStart_def onEventProcessingStart_def onEventProcessingEnd_def
      dispatchPendingEventTimingEntries_def shadowTreeDidMount_def)

theorem sink_unavailable_noop_witness:
  "\<not> reporterAlive orphanedLogger \<and>
   onEventStart std_hash ''topClick'' None None 20 orphanedLogger =
     (EMPTY_EVENT_TAG, orphanedLogger) \<and>
   onEventProcessingStart 20 1 orphanedLogger = orphanedLogger \<and>
   onEventProcessingEnd True 20 1 orphanedLogger = Inr orphanedLogger \<and>
   dispatchPendingEventTimingEntries True (\<lambda>i. 20) {} orphanedLogger = Inr orphanedLogger \<and>
   shadowTreeDidMount True (Some (RootShadowNode 1)) 20 orphanedLogger = Inr orphanedLogger \<and>
   eventsInFlight orphanedLogger = [(1, processedClick)]"
proof -
  have dead: "\<not> reporterAlive orphanedLogger"
    by (simp add: orphanedLogger_def)
  show ?thesis
    using dead
      sink_unavailable_noop [where s = orphanedLogger and hash = std_hash
        and nm = "''topClick''" and tgt = None and ts = None and now = 20 and tag = 1
        and debug = True and clock = "\<lambda>i. 20" and pending = "{}"
        and root = "Some (RootShadowNode 1)" and mountTime = 20]
    by (simp add: orphanedLogger_def)
qed

section \<open>A run of the model\<close>

lemma std_hash_topAuxClick: "std_hash ''topAuxClick'' = 9036610862640196907"
  by code_simp

lemma std_hash_topClick: "std_hash ''topClick'' = 13510909223856792142"
  by code_simp

lemma std_hash_topContextMenu: "std_hash ''topContextMenu'' = 16323281725996346445"
  by code_simp

lemma std_hash_topDblClick: "std_hash ''topDblClick'' = 13044398178297911447"
  by code_simp

lemma std_hash_topMouseDown: "std_hash ''topMouseDown'' = 8485741601115641068"
  by code_simp

lemma std_hash_topMouseEnter: "std_hash ''topMouseEnter'' = 12057179684777956786"
  by code_simp

lemma std_hash_topMouseLeave: "std_hash ''topMouseLeave'' = 18349288131304994658"
  by code_simp

lemma std_hash_topMouseOut: "std_hash ''topMouseOut'' = 7788550906752408400"
  by code_simp

lemma std_hash_topMouseOver: "std_hash ''topMouseOver'' = 851693576165609551"
  by code_simp

lemma std_hash_topMouseUp: "std_hash ''topMouseUp'' = 399657204995632055"
  by code_simp

lemma std_hash_topPointerOver: "std_hash ''topPointerOver'' = 2886666428204340373"
  by code_simp

lemma std_hash_topPointerEnter: "std_hash ''topPointerEnter'' = 3309300975494090201"
  by code_simp

lemma std_hash_topPointerDown: "std_hash ''topPointerDown'' = 15545894968684952287"
  by code_simp

lemma std_hash_topPointerUp: "std_hash ''topPointerUp'' = 16894254827550094969"
  by code_simp

lemma std_hash_topPointerCancel: "std_hash ''topPointerCancel'' = 4170279255129637850"
  by code_simp

lemma std_hash_topPointerOut: "std_hash ''topPointerOut'' = 15688423879321298151"
  by code_simp

lemma std_hash_topPointerLeave: "std_hash ''topPointerLeave'' = 10937673251108397362"
  by code_simp

lemma std_hash_topGotPointerCapture: "std_hash ''topGotPointerCapture'' = 18259171256456380283"
  by code_simp

lemma std_hash_topLostPointerCapture: "std_hash ''topLostPointerCapture'' = 12224705243239627416"
  by code_simp

lemma std_hash_topTouchStart: "std_hash ''topTouchStart'' = 12453377175131537349"
  by code_simp

lemma std_hash_topTouchEnd: "std_hash ''topTouchEnd'' = 12541525356874204520"
  by code_simp

lemma std_hash_topTouchCancel: "std_hash ''topTouchCancel'' = 9113370586054742139"
  by code_simp

lemma std_hash_topKeyDown: "std_hash ''topKeyDown'' = 15392976298208124574"
  by code_simp

lemma std_hash_topKeyPress: "std_hash ''topKeyPress'' = 14777173219487587680"
  by code_simp

lemma std_hash_topKeyUp: "std_hash ''topKeyUp'' = 8957770390883956316"
  by code_simp

lemma std_hash_topBeforeInput: "std_hash ''topBeforeInput'' = 5602232128575196737"
  by code_simp

lemma std_hash_topInput: "std_hash ''topInput'' = 4790702861830880395"
  by code_simp

lemma std_hash_topCompositionStart: "std_hash ''topCompositionStart'' = 13454247488130762169"
  by code_simp

lemma std_hash_topCompositionUpdate: "std_hash ''topCompositionUpdate'' = 10137677274396018052"
  by code_simp

lemma std_hash_topCompositionEnd: "std_hash ''topCompositionEnd'' = 233134349017578652"
  by code_simp

lemma std_hash_topDragStart: "std_hash ''topDragStart'' = 11201669343293975073"
  by code_simp

lemma std_hash_topDragEnd: "std_hash ''topDragEnd'' = 6433826724572420810"
  by code_simp

lemma std_hash_topDragEnter: "std_hash ''topDragEnter'' = 9161660454757979426"
  by code_simp

lemma std_hash_topDragLeave: "std_hash ''topDragLeave'' = 6089488018236194870"
  by code_simp

lemma std_hash_topDragOver: "std_hash ''topDragOver'' = 17891800498431444819"
  by code_simp

lemma std_hash_topDrop: "std_hash ''topDrop'' = 340125051676623313"
  by code_simp

lemmas std_hash_registered =
  std_hash_topAuxClick std_hash_topClick std_hash_topContextMenu std_hash_topDblClick
  std_hash_topMouseDown std_hash_topMouseEnter std_hash_topMouseLeave std_hash_topMouseOut
  std_hash_topMouseOver std_hash_topMouseUp std_hash_topPointerOver std_hash_topPointerEnter
  std_hash_topPointerDown std_hash_topPointerUp std_hash_topPointerCancel std_hash_topPointerOut
  std_hash_topPointerLeave std_hash_topGotPointerCapture std_hash_topLostPointerCapture std_hash_topTouchStart
  std_hash_topTouchEnd std_hash_topTouchCancel std_hash_topKeyDown std_hash_topKeyPress
  std_hash_topKeyUp std_hash_topBeforeInput std_hash_topInput std_hash_topCompositionStart
  std_hash_topCompositionUpdate std_hash_topCompositionEnd std_hash_topDragStart std_hash_topDragEnd
  std_hash_topDragEnter std_hash_topDragLeave std_hash_topDragOver std_hash_topDrop

lemma find_supported_topClick: "find_supported std_hash ''topClick'' = Some ''click''"
  by (simp add: find_supported_def getSupportedEvents_def SUPPORTED_EVENTS_def mkStrKey_def
      std_hash_topClick std_hash_topAuxClick)

lemma run_clickCalls: "run std_hash debug clickCalls (newLogger True 0) = Inr clickLogger"
  by (simp add: clickCalls_def clickLogger_def newLogger_def onEventStart_def
      find_supported_topClick createEventTag_def emplace_def newEventEntry_def
      onEventProcessingStart_def onEventProcessingEnd_def react_native_assert_def
      processedClick_def)

lemma reachable_clickLogger: "reachable std_hash debug clickLogger"
  unfolding reachable_def using run_clickCalls by blast

lemma dispatch_clickLogger:
  "dispatchPendingEventTimingEntries debug (\<lambda>i. 13) {} clickLogger = Inr clickReported"
  by (simp add: dispatchPendingEventTimingEntries_def clickLogger_def clickReported_def
      processedClick_def isWaitingForDispatch_def hasPendingRenderingUpdates_def
      reportEntry_def react_native_assert_def optional_value_def timing_def)

lemma run_clickReported:
  "run std_hash debug (clickCalls @ [DispatchPendingEventTimingEntries {} (\<lambda>i. 13)])
     (newLogger True 0) = Inr clickReported"
  by (simp add: run_append run_clickCalls dispatch_clickLogger)

section \<open>Reported at most once\<close>

lemma map_of_absent: "tag \<notin> fst ` set table \<Longrightarrow> map_of table tag = None"
  by (simp add: map_of_eq_None_iff)

lemma log_grows_step:
  assumes "loggerInv s" and "step hash debug c s = Inr s'"
  shows "\<exists>new. reported s' = reported s @ new"
proof (cases c)
  case (OnEventStart nm tgt ts now)
  with assms(2) show ?thesis
    by (auto simp: onEventStart_def createEventTag_def Let_def split: option.splits)
next
  case (OnEventProcessingStart tag now)
  with assms(2) show ?thesis
    by (auto simp: onEventProcessingStart_def split: option.splits)
next
  case (OnEventProcessingEnd tag now)
  with assms(2) show ?thesis
    by (auto simp: onEventProcessingEnd_def split: option.splits sum.splits if_splits)
next
  case (DispatchPendingEventTimingEntries pending clock)
  show ?thesis
  proof (cases "reporterAlive s")
    case True
    from assms(2) dispatch_Inr[OF True, of debug clock pending]
    show ?thesis by (auto simp: DispatchPendingEventTimingEntries)
  next
    case False
    with assms(2) show ?thesis
      by (simp add: DispatchPendingEventTimingEntries dispatchPendingEventTimingEntries_def)
  qed
next
  case (ShadowTreeDidMount root mountTime)
  show ?thesis
  proof (cases "reporterAlive s")
    case True
    from assms(2) mount_Inr[OF True loggerInv_parked[OF assms(1)], of debug root mountTime]
    show ?thesis by (auto simp: ShadowTreeDidMount)
  next
    case False
    with assms(2) show ?thesis by (simp add: ShadowTreeDidMount shadowTreeDidMount_def)
  qed
next
  case ReporterDestroyed
  with assms(2) show ?thesis by auto
next
  case TagCreatedElsewhere
  with assms(2) show ?thesis by (auto simp: createEventTag_def)
qed

lemma log_grows_run:
  "loggerInv s \<Longrightarrow> run hash debug cs s = Inr s' \<Longrightarrow> \<exists>new. reported s' = reported s @ new"
proof (induction cs arbitrary: s)
  case Nil
  then show ?case by simp
next
  case (Cons c cs)
  from Cons.prems(2) obtain s1 where s1: "step hash debug c s = Inr s1"
    and r: "run hash debug cs s1 = Inr s'"
    by (auto split: sum.splits)
  from log_grows_step[OF Cons.prems(1) s1] obtain n1 where n1: "reported s1 = reported s @ n1" ..
  from Cons.IH[OF loggerInv_step[OF Cons.prems(1) s1] r] obtain n2
    where "reported s' = reported s1 @ n2" ..
  with n1 show ?case by simp
qed

text \<open>
  Claim C1. In every state a logger reaches from its construction, whatever the calls
  were: no tag occurs twice among the calls of \<^verbatim>\<open>reportEvent\<close> made so far; a tag that
  has been reported is absent from the table; \<^verbatim>\<open>onEventProcessingStart\<close> and
  \<^verbatim>\<open>onEventProcessingEnd\<close> on such a tag change nothing; and whatever calls follow,
  the tag stays absent from the table and is not among the reports they add.
\<close>

theorem reported_at_most_once:
  assumes "run hash debug cs (newLogger alive n) = Inr s"
  shows "distinct (map fst (reported s)) \<and>
         (\<forall>tag \<in> fst ` set (reported s).
            tag \<notin> fst ` set (eventsInFlight s) \<and>
            onEventProcessingStart now tag s = s \<and>
            onEventProcessingEnd debug now tag s = Inr s \<and>
            (\<forall>cs' s'. run hash debug cs' s = Inr s' \<longrightarrow>
               tag \<notin> fst ` set (eventsInFlight s') \<and>
               (\<exists>new. reported s' = reported s @ new \<and> tag \<notin> fst ` set new)))"
proof -
  from assms have inv: "loggerInv s"
    using loggerInv_run[OF loggerInv_newLogger] by blast
  then have d: "distinct (map fst (reported s))"
    and dj: "fst ` set (reported s) \<inter> fst ` set (eventsInFlight s) = {}"
    by (simp_all add: loggerInv_def)
  have "tag \<notin> fst ` set (eventsInFlight s) \<and>
        onEventProcessingStart now tag s = s \<and>
        onEventProcessingEnd debug now tag s = Inr s \<and>
        (\<forall>cs' s'. run hash debug cs' s = Inr s' \<longrightarrow>
           tag \<notin> fst ` set (eventsInFlight s') \<and>
           (\<exists>new. reported s' = reported s @ new \<and> tag \<notin> fst ` set new))"
    if tag: "tag \<in> fst ` set (reported s)" for tag
  proof -
    from tag dj have absent: "tag \<notin> fst ` set (eventsInFlight s)" by auto
    then have m: "map_of (eventsInFlight s) tag = None" by (rule map_of_absent)
    have later: "tag \<notin> fst ` set (eventsInFlight s') \<and>
           (\<exists>new. reported s' = reported s @ new \<and> tag \<notin> fst ` set new)"
      if r: "run hash debug cs' s = Inr s'" for cs' s'
    proof -
      from loggerInv_run[OF inv r] have d': "distinct (map fst (reported s'))"
        and dj': "fst ` set (reported s') \<inter> fst ` set (eventsInFlight s') = {}"
        by (simp_all add: loggerInv_def)
      from log_grows_run[OF inv r] obtain new where new: "reported s' = reported s @ new" ..
      from d' new tag have "tag \<notin> fst ` set new" by auto
      moreover from dj' new tag have "tag \<notin> fst ` set (eventsInFlight s')" by auto
      ultimately show ?thesis using new by blast
    qed
    from absent m later show ?thesis
      by (simp add: onEventProcessingStart_def onEventProcessingEnd_def)
  qed
  with d show ?thesis by blast
qed

theorem reported_at_most_once_witness:
  "run std_hash True (clickCalls @ [DispatchPendingEventTimingEntries {} (\<lambda>i. 13)])
     (newLogger True 0) = Inr clickReported \<and>
   map fst (reported clickReported) = [1] \<and>
   distinct (map fst (reported clickReported)) \<and>
   1 \<notin> fst ` set (eventsInFlight clickReported) \<and>
   onEventProcessingStart 14 1 clickReported = clickReported \<and>
   onEventProcessingEnd True 14 1 clickReported = Inr clickReported \<and>
   run std_hash True
     [ShadowTreeDidMount (Some (RootShadowNode 1)) 15,
      DispatchPendingEventTimingEntries {} (\<lambda>i. 16)] clickReported = Inr clickReported \<and>
   (\<exists>new. reported clickReported = reported clickReported @ new \<and> 1 \<notin> fst ` set new)"
proof -
  have r: "run std_hash True (clickCalls @ [DispatchPendingEventTimingEntries {} (\<lambda>i. 13)])
     (newLogger True 0) = Inr clickReported"
    by (rule run_clickReported)
  have tags: "map fst (reported clickReported) = [1]"
    by (simp add: clickReported_def)
  then have mem: "1 \<in> fst ` set (reported clickReported)"
    by (metis list.set_intros(1) set_map)
  have later: "run std_hash True
     [ShadowTreeDidMount (Some (RootShadowNode 1)) 15,
      DispatchPendingEventTimingEntries {} (\<lambda>i. 16)] clickReported = Inr clickReported"
    by (simp add: clickReported_def shadowTreeDidMount_def dispatchPendingEventTimingEntries_def)
  from reported_at_most_once [OF r, of 14] mem later
  have "distinct (map fst (reported clickReported)) \<and>
        1 \<notin> fst ` set (eventsInFlight clickReported) \<and>
        onEventProcessingStart 14 1 clickReported = clickReported \<and>
        onEventProcessingEnd True 14 1 clickReported = Inr clickReported \<and>
        (\<exists>new. reported clickReported = reported clickReported @ new \<and> 1 \<notin> fst ` set new)"
    by blast
  with r tags later show ?thesis by blast
qed

section \<open>What the finalisation paths report and what they keep\<close>

lemma key_determines_entry:
  "distinct (map fst xs) \<Longrightarrow> (t, e) \<in> set xs \<Longrightarrow> (t, e') \<in> set xs \<Longrightarrow> e = e'"
  by (rule eq_key_imp_eq_value)

lemma filter_keys_iff:
  assumes "distinct (map fst xs)" and "(t, e) \<in> set xs"
  shows "t \<in> fst ` set (filter (\<lambda>(t, e). P e) xs) \<longleftrightarrow> P e"
proof
  assume "t \<in> fst ` set (filter (\<lambda>(t, e). P e) xs)"
  then obtain e' where "(t, e') \<in> set xs" and "P e'" by auto
  with key_determines_entry[OF assms] show "P e" by blast
next
  assume "P e"
  with assms(2) have "(t, e) \<in> set (filter (\<lambda>(t, e). P e) xs)" by simp
  then show "t \<in> fst ` set (filter (\<lambda>(t, e). P e) xs)" by (rule rev_image_eqI) simp
qed

lemma in_enumerate_timing:
  assumes "(t, e) \<in> set xs"
  shows "\<exists>i. (t, g i e) \<in> set (map (\<lambda>(i, (t, e)). (t, g i e)) (enumerate n xs))"
proof -
  from assms obtain j where j: "j < length xs" and x: "xs ! j = (t, e)"
    by (auto simp: in_set_conv_nth)
  then have "(n + j, (t, e)) \<in> set (enumerate n xs)"
    by (simp add: in_set_enumerate_eq)
  then have "(\<lambda>(i, (t, e)). (t, g i e)) (n + j, (t, e)) \<in>
        set (map (\<lambda>(i, (t, e)). (t, g i e)) (enumerate n xs))"
    unfolding set_map by (rule imageI)
  then have "(t, g (n + j) e) \<in> set (map (\<lambda>(i, (t, e)). (t, g i e)) (enumerate n xs))"
    by simp
  then show ?thesis ..
qed

lemma enumerate_timing_elem:
  assumes "x \<in> set (map (\<lambda>(i, (t, e)). (t, g i e)) (enumerate n xs))"
  shows "\<exists>i t e. (t, e) \<in> set xs \<and> x = (t, g i e)"
proof -
  from assms obtain i t e where m: "(i, (t, e)) \<in> set (enumerate n xs)" and x: "x = (t, g i e)"
    by auto
  from m have "i - n < length xs" and "xs ! (i - n) = (t, e)"
    by (auto simp: in_set_enumerate_eq)
  then have "(t, e) \<in> set xs"
    by (metis nth_mem)
  with x show ?thesis by blast
qed

lemma timing_complete:
  "\<not> isWaitingForDispatch e \<Longrightarrow>
     processingStartTime e = Some (evProcessingStart (timing t e)) \<and>
     processingEndTime e = Some (evProcessingEnd (timing t e))"
  by (auto simp: isWaitingForDispatch_def timing_def)

lemma dispatch_new_complete:
  "completeReports table
     (map (\<lambda>(i, (t, e)). (t, timing (clock i) e))
        (enumerate 0 (filter (\<lambda>(t, e). dispatchable pending e) table)))"
proof -
  have "\<exists>e. (t, e) \<in> set table \<and>
            processingStartTime e = Some (evProcessingStart ev) \<and>
            processingEndTime e = Some (evProcessingEnd ev)"
    if "(t, ev) \<in> set (map (\<lambda>(i, (t, e)). (t, timing (clock i) e))
        (enumerate 0 (filter (\<lambda>(t, e). dispatchable pending e) table)))" for t ev
  proof -
    from enumerate_timing_elem[OF that] obtain i e
      where "(t, e) \<in> set table" and "dispatchable pending e" and "ev = timing (clock i) e"
      by auto
    then show ?thesis
      using timing_complete[of e "clock i"] by (auto simp: dispatchable_def)
  qed
  then show ?thesis unfolding completeReports_def by blast
qed

lemma mount_new_complete:
  assumes "\<forall>(t, e) \<in> set table. isWaitingForMount e \<longrightarrow> \<not> isWaitingForDispatch e"
  shows "completeReports table
     (map (\<lambda>(t, e). (t, timing mountTime e)) (filter (\<lambda>(t, e). mounted root e) table))"
proof -
  have "\<exists>e. (t, e) \<in> set table \<and>
            processingStartTime e = Some (evProcessingStart ev) \<and>
            processingEndTime e = Some (evProcessingEnd ev)"
    if "(t, ev) \<in> set (map (\<lambda>(t, e). (t, timing mountTime e))
          (filter (\<lambda>(t, e). mounted root e) table))" for t ev
  proof -
    from that obtain e where "(t, e) \<in> set table" and "mounted root e"
      and "ev = timing mountTime e" by auto
    with assms show ?thesis
      using timing_complete[of e mountTime] by (auto simp: mounted_def)
  qed
  then show ?thesis unfolding completeReports_def by blast
qed

lemma dispatch_keeps_waiting:
  assumes "distinct (map fst (eventsInFlight s))" and "(tag, e) \<in> set (eventsInFlight s)"
    and "isWaitingForDispatch e \<or> isWaitingForMount e"
  shows "\<exists>s' new. dispatchPendingEventTimingEntries debug clock pending s = Inr s' \<and>
           (tag, e) \<in> set (eventsInFlight s') \<and>
           reported s' = reported s @ new \<and> tag \<notin> fst ` set new"
proof (cases "reporterAlive s")
  case False
  with assms(2) show ?thesis by (simp add: dispatchPendingEventTimingEntries_def)
next
  case True
  let ?new = "map (\<lambda>(i, (t, e)). (t, timing (clock i) e))
                (enumerate 0 (filter (\<lambda>(t, e). dispatchable pending e) (eventsInFlight s)))"
  from assms(3) have nd: "\<not> dispatchable pending e" and pk: "park pending e = e"
    by (auto simp: dispatchable_def park_def)
  from nd assms(2) have "(tag, park pending e) \<in>
      set (map (\<lambda>(t, e). (t, park pending e))
            (filter (\<lambda>(t, e). \<not> dispatchable pending e) (eventsInFlight s)))"
    by force
  with pk have kept: "(tag, e) \<in>
      set (map (\<lambda>(t, e). (t, park pending e))
            (filter (\<lambda>(t, e). \<not> dispatchable pending e) (eventsInFlight s)))"
    by simp
  have "map fst ?new = map fst (filter (\<lambda>(t, e). dispatchable pending e) (eventsInFlight s))"
    by (rule map_fst_enumerate_timing)
  then have "fst ` set ?new = fst ` set (filter (\<lambda>(t, e). dispatchable pending e) (eventsInFlight s))"
    by (metis set_map)
  with filter_keys_iff[OF assms(1,2), of "dispatchable pending"] nd
  have "tag \<notin> fst ` set ?new" by simp
  with kept show ?thesis
    by (simp add: dispatch_Inr[OF True])
qed

lemma run_twoLogger:
  "run std_hash debug (clickCalls @ [OnEventStart ''topClick'' None (Some 5) 13])
     (newLogger True 0) = Inr twoLogger"
  by (simp add: run_append run_clickCalls)
     (simp add: clickLogger_def twoLogger_def onEventStart_def find_supported_topClick
        createEventTag_def emplace_def unprocessedClick_def)

lemma reachable_twoLogger: "reachable std_hash debug twoLogger"
  unfolding reachable_def using run_twoLogger by blast

section \<open>No report without both processing time stamps\<close>

text \<open>
  Claim C2. First, for every table with distinct keys:
  \<^verbatim>\<open>dispatchPendingEventTimingEntries\<close> keeps a record that lacks
  \<open>processingStartTime\<close> or \<open>processingEndTime\<close> as it is and makes no report for its tag.
  Second, in every state a logger reaches (in the debug build and in the release build):
  both finalisation paths return without a failed assertion and without reading an empty
  optional, and every report they add was made for a record with both time stamps set
  and carries them.
\<close>

theorem never_reported_incomplete:
  "(distinct (map fst (eventsInFlight s)) \<and> (tag, e) \<in> set (eventsInFlight s) \<and>
    (processingStartTime e = None \<or> processingEndTime e = None) \<longrightarrow>
      (\<exists>s' new. dispatchPendingEventTimingEntries debug clock pending s = Inr s' \<and>
         (tag, e) \<in> set (eventsInFlight s') \<and>
         reported s' = reported s @ new \<and> tag \<notin> fst ` set new)) \<and>
   (reachable hash debug s \<longrightarrow>
      (\<exists>s' new. dispatchPendingEventTimingEntries debug clock pending s = Inr s' \<and>
         reported s' = reported s @ new \<and> completeReports (eventsInFlight s) new) \<and>
      (\<exists>s' new. shadowTreeDidMount debug root mountTime s = Inr s' \<and>
         reported s' = reported s @ new \<and> completeReports (eventsInFlight s) new))"
proof (intro conjI impI)
  assume a: "distinct (map fst (eventsInFlight s)) \<and> (tag, e) \<in> set (eventsInFlight s) \<and>
    (processingStartTime e = None \<or> processingEndTime e = None)"
  then have d: "distinct (map fst (eventsInFlight s))"
    and m: "(tag, e) \<in> set (eventsInFlight s)"
    and w: "isWaitingForDispatch e \<or> isWaitingForMount e"
    by (simp_all add: isWaitingForDispatch_def)
  show "\<exists>s' new. dispatchPendingEventTimingEntries debug clock pending s = Inr s' \<and>
         (tag, e) \<in> set (eventsInFlight s') \<and>
         reported s' = reported s @ new \<and> tag \<notin> fst ` set new"
    by (rule dispatch_keeps_waiting[OF d m w])
next
  assume "reachable hash debug s"
  show "\<exists>s' new. dispatchPendingEventTimingEntries debug clock pending s = Inr s' \<and>
         reported s' = reported s @ new \<and> completeReports (eventsInFlight s) new"
  proof (cases "reporterAlive s")
    case True
    let ?new = "map (\<lambda>(i, (t, e)). (t, timing (clock i) e))
        (enumerate 0 (filter (\<lambda>(t, e). dispatchable pending e) (eventsInFlight s)))"
    let ?s' = "s\<lparr>eventsInFlight :=
              map (\<lambda>(t, e). (t, park pending e))
                (filter (\<lambda>(t, e). \<not> dispatchable pending e) (eventsInFlight s)),
            reported := reported s @ ?new\<rparr>"
    have 1: "dispatchPendingEventTimingEntries debug clock pending s = Inr ?s'"
      by (rule dispatch_Inr[OF True])
    have 2: "reported ?s' = reported s @ ?new"
      by simp
    have 3: "completeReports (eventsInFlight s) ?new"
      by (rule dispatch_new_complete)
    show ?thesis
      by (rule exI[of _ ?s'], rule exI[of _ ?new]) (intro conjI 1 2 3)
  next
    case False
    have "dispatchPendingEventTimingEntries debug clock pending s = Inr s"
      using False by (simp add: dispatchPendingEventTimingEntries_def)
    moreover have "reported s = reported s @ []" by simp
    moreover have "completeReports (eventsInFlight s) []"
      by (simp add: completeReports_def)
    ultimately show ?thesis by blast
  qed
next
  assume "reachable hash debug s"
  then have "loggerInv s" by (rule loggerInv_reachable)
  then have pk: "\<forall>(t, e) \<in> set (eventsInFlight s).
      isWaitingForMount e \<longrightarrow> \<not> isWaitingForDispatch e"
    by (rule loggerInv_parked)
  show "\<exists>s' new. shadowTreeDidMount debug root mountTime s = Inr s' \<and>
         reported s' = reported s @ new \<and> completeReports (eventsInFlight s) new"
  proof (cases "reporterAlive s")
    case True
    let ?new = "map (\<lambda>(t, e). (t, timing mountTime e))
                (filter (\<lambda>(t, e). mounted root e) (eventsInFlight s))"
    let ?s' = "s\<lparr>eventsInFlight := filter (\<lambda>(t, e). \<not> mounted root e) (eventsInFlight s),
            reported := reported s @ ?new\<rparr>"
    have 1: "shadowTreeDidMount debug root mountTime s = Inr ?s'"
      by (rule mount_Inr[OF True pk])
    have 2: "reported ?s' = reported s @ ?new"
      by simp
    have 3: "completeReports (eventsInFlight s) ?new"
      by (rule mount_new_complete[OF pk])
    show ?thesis
      by (rule exI[of _ ?s'], rule exI[of _ ?new]) (intro conjI 1 2 3)
  next
    case False
    have "shadowTreeDidMount debug root mountTime s = Inr s"
      using False by (simp add: shadowTreeDidMount_def)
    moreover have "reported s = reported s @ []" by simp
    moreover have "completeReports (eventsInFlight s) []"
      by (simp add: completeReports_def)
    ultimately show ?thesis by blast
  qed
qed

theorem never_reported_incomplete_witness:
  "distinct (map fst (eventsInFlight twoLogger)) \<and>
   (2, unprocessedClick) \<in> set (eventsInFlight twoLogger) \<and>
   processingStartTime unprocessedClick = None \<and>
   reachable std_hash True twoLogger \<and>
   dispatchPendingEventTimingEntries True (\<lambda>i. 20) {} twoLogger =
     Inr (twoLogger\<lparr>eventsInFlight := [(2, unprocessedClick)],
                    reported := [(1, timing 20 processedClick)]\<rparr>) \<and>
   completeReports (eventsInFlight twoLogger) [(1, timing 20 processedClick)] \<and>
   (\<exists>s'. shadowTreeDidMount True (Some (RootShadowNode 1)) 20 twoLogger = Inr s')"
proof -
  have h1: "distinct (map fst (eventsInFlight twoLogger))"
    and h2: "(2, unprocessedClick) \<in> set (eventsInFlight twoLogger)"
    and h3: "processingStartTime unprocessedClick = None"
    by (simp_all add: twoLogger_def unprocessedClick_def newEventEntry_def)
  have h4: "reachable std_hash True twoLogger"
    by (rule reachable_twoLogger)
  have d: "dispatchPendingEventTimingEntries True (\<lambda>i. 20) {} twoLogger =
     Inr (twoLogger\<lparr>eventsInFlight := [(2, unprocessedClick)],
                    reported := [(1, timing 20 processedClick)]\<rparr>)"
    by (simp add: dispatchPendingEventTimingEntries_def twoLogger_def unprocessedClick_def
        newEventEntry_def processedClick_def isWaitingForDispatch_def
        hasPendingRenderingUpdates_def reportEntry_def react_native_assert_def
        optional_value_def timing_def)
  have r: "reported twoLogger = []"
    by (simp add: twoLogger_def)
  note inst = never_reported_incomplete [where s = twoLogger and tag = 2
      and e = unprocessedClick and debug = True and clock = "\<lambda>i. 20" and pending = "{}"
      and hash = std_hash and root = "Some (RootShadowNode 1)" and mountTime = 20]
  from inst h4 obtain s' new
    where 1: "dispatchPendingEventTimingEntries True (\<lambda>i. 20) {} twoLogger = Inr s'"
      and 2: "reported s' = reported twoLogger @ new"
      and 3: "completeReports (eventsInFlight twoLogger) new"
    by blast
  from 1 d have "s' = twoLogger\<lparr>eventsInFlight := [(2, unprocessedClick)],
                    reported := [(1, timing 20 processedClick)]\<rparr>"
    by simp
  with 2 r have "new = [(1, timing 20 processedClick)]"
    by simp
  with 3 have c: "completeReports (eventsInFlight twoLogger) [(1, timing 20 processedClick)]"
    by simp
  from inst h4 have m: "\<exists>s'. shadowTreeDidMount True (Some (RootShadowNode 1)) 20 twoLogger = Inr s'"
    by blast
  from h1 h2 h3 h4 d c m show ?thesis
    by (intro conjI)
qed

section \<open>Deferring to the mount of a surface\<close>

lemma dispatch_keeps:
  assumes "reporterAlive s" and "distinct (map fst (eventsInFlight s))"
    and "(tag, e) \<in> set (eventsInFlight s)" and "\<not> dispatchable pending e"
  shows "\<exists>s' new. dispatchPendingEventTimingEntries debug clock pending s = Inr s' \<and>
           (tag, park pending e) \<in> set (eventsInFlight s') \<and>
           reported s' = reported s @ new \<and> tag \<notin> fst ` set new"
proof -
  let ?new = "map (\<lambda>(i, (t, e)). (t, timing (clock i) e))
                (enumerate 0 (filter (\<lambda>(t, e). dispatchable pending e) (eventsInFlight s)))"
  let ?tbl = "map (\<lambda>(t, e). (t, park pending e))
                (filter (\<lambda>(t, e). \<not> dispatchable pending e) (eventsInFlight s))"
  let ?s' = "s\<lparr>eventsInFlight := ?tbl, reported := reported s @ ?new\<rparr>"
  have 1: "dispatchPendingEventTimingEntries debug clock pending s = Inr ?s'"
    by (rule dispatch_Inr[OF assms(1)])
  from assms(3,4) have "(tag, e) \<in> set (filter (\<lambda>(t, e). \<not> dispatchable pending e) (eventsInFlight s))"
    by simp
  then have "(\<lambda>(t, e). (t, park pending e)) (tag, e) \<in> set ?tbl"
    unfolding set_map by (rule imageI)
  then have 2: "(tag, park pending e) \<in> set (eventsInFlight ?s')"
    by simp
  have 3: "reported ?s' = reported s @ ?new"
    by simp
  have "map fst ?new = map fst (filter (\<lambda>(t, e). dispatchable pending e) (eventsInFlight s))"
    by (rule map_fst_enumerate_timing)
  then have "fst ` set ?new = fst ` set (filter (\<lambda>(t, e). dispatchable pending e) (eventsInFlight s))"
    by (metis set_map)
  with filter_keys_iff[OF assms(2,3), of "dispatchable pending"] assms(4)
  have 4: "tag \<notin> fst ` set ?new" by simp
  show ?thesis
    by (rule exI[of _ ?s'], rule exI[of _ ?new]) (intro conjI 1 2 3 4)
qed

lemma dispatch_reports:
  assumes "reporterAlive s" and "distinct (map fst (eventsInFlight s))"
    and "(tag, e) \<in> set (eventsInFlight s)" and "dispatchable pending e"
  shows "\<exists>s' new i. dispatchPendingEventTimingEntries debug clock pending s = Inr s' \<and>
           tag \<notin> fst ` set (eventsInFlight s') \<and>
           reported s' = reported s @ new \<and> (tag, timing (clock i) e) \<in> set new"
proof -
  let ?new = "map (\<lambda>(i, (t, e)). (t, timing (clock i) e))
                (enumerate 0 (filter (\<lambda>(t, e). dispatchable pending e) (eventsInFlight s)))"
  let ?tbl = "map (\<lambda>(t, e). (t, park pending e))
                (filter (\<lambda>(t, e). \<not> dispatchable pending e) (eventsInFlight s))"
  let ?s' = "s\<lparr>eventsInFlight := ?tbl, reported := reported s @ ?new\<rparr>"
  have 1: "dispatchPendingEventTimingEntries debug clock pending s = Inr ?s'"
    by (rule dispatch_Inr[OF assms(1)])
  have "map fst ?tbl = map fst (filter (\<lambda>(t, e). \<not> dispatchable pending e) (eventsInFlight s))"
    by (rule map_fst_park)
  then have "fst ` set ?tbl =
      fst ` set (filter (\<lambda>(t, e). \<not> dispatchable pending e) (eventsInFlight s))"
    by (metis set_map)
  with filter_keys_iff[OF assms(2,3), of "\<lambda>e. \<not> dispatchable pending e"] assms(4)
  have 2: "tag \<notin> fst ` set (eventsInFlight ?s')" by simp
  have 3: "reported ?s' = reported s @ ?new"
    by simp
  from assms(3,4) have "(tag, e) \<in> set (filter (\<lambda>(t, e). dispatchable pending e) (eventsInFlight s))"
    by simp
  from in_enumerate_timing[OF this, of "\<lambda>i. timing (clock i)" 0]
  obtain i where 4: "(tag, timing (clock i) e) \<in> set ?new" ..
  show ?thesis
    by (rule exI[of _ ?s'], rule exI[of _ ?new], rule exI[of _ i]) (intro conjI 1 2 3 4)
qed

text \<open>
  Claim C3. With the sink alive and a table with distinct keys, take a record whose target
  is on a surface of the pending set. \<^verbatim>\<open>dispatchPendingEventTimingEntries\<close> returns, makes
  no report for the tag of the record, and keeps the record in the table: with
  \<open>isWaitingForMount\<close> set to true when the record had both processing time stamps and
  was not marked yet, and unchanged otherwise.
\<close>

theorem dispatch_defers_pending_surface:
  assumes "reporterAlive s"
    and "distinct (map fst (eventsInFlight s))"
    and "(tag, e) \<in> set (eventsInFlight s)"
    and "target e = Some tg"
    and "getSurfaceId tg \<in> pending"
  shows "\<exists>s' new. dispatchPendingEventTimingEntries debug clock pending s = Inr s' \<and>
           reported s' = reported s @ new \<and> tag \<notin> fst ` set new \<and>
           (if processingStartTime e \<noteq> None \<and> processingEndTime e \<noteq> None \<and>
               \<not> isWaitingForMount e
            then (tag, e\<lparr>isWaitingForMount := True\<rparr>) \<in> set (eventsInFlight s')
            else (tag, e) \<in> set (eventsInFlight s'))"
proof -
  from assms(4,5) have p: "hasPendingRenderingUpdates (target e) pending"
    by (simp add: hasPendingRenderingUpdates_def)
  then have nd: "\<not> dispatchable pending e"
    by (simp add: dispatchable_def)
  from dispatch_keeps[OF assms(1-3) nd, of debug clock] obtain s' new
    where 1: "dispatchPendingEventTimingEntries debug clock pending s = Inr s'"
      and 2: "(tag, park pending e) \<in> set (eventsInFlight s')"
      and 3: "reported s' = reported s @ new" and 4: "tag \<notin> fst ` set new"
    by blast
  have 5: "if processingStartTime e \<noteq> None \<and> processingEndTime e \<noteq> None \<and>
               \<not> isWaitingForMount e
            then (tag, e\<lparr>isWaitingForMount := True\<rparr>) \<in> set (eventsInFlight s')
            else (tag, e) \<in> set (eventsInFlight s')"
  proof (cases "processingStartTime e \<noteq> None \<and> processingEndTime e \<noteq> None \<and>
               \<not> isWaitingForMount e")
    case True
    with p have "park pending e = e\<lparr>isWaitingForMount := True\<rparr>"
      by (auto simp: park_def isWaitingForDispatch_def)
    with 2 have "(tag, e\<lparr>isWaitingForMount := True\<rparr>) \<in> set (eventsInFlight s')"
      by simp
    with True show ?thesis by presburger
  next
    case False
    then have "park pending e = e"
      by (auto simp: park_def isWaitingForDispatch_def)
    with 2 have "(tag, e) \<in> set (eventsInFlight s')"
      by simp
    with False show ?thesis by presburger
  qed
  show ?thesis
    by (rule exI[of _ s'], rule exI[of _ new]) (intro conjI 1 3 4 5)
qed

lemma dispatch_twoLogger:
  "dispatchPendingEventTimingEntries debug (\<lambda>i. 16) {1} twoLogger = Inr parkedLogger"
  by (simp add: dispatchPendingEventTimingEntries_def twoLogger_def parkedLogger_def
      unprocessedClick_def newEventEntry_def processedClick_def isWaitingForDispatch_def
      hasPendingRenderingUpdates_def)

theorem dispatch_defers_pending_surface_witness:
  "reporterAlive twoLogger \<and>
   distinct (map fst (eventsInFlight twoLogger)) \<and>
   (1, processedClick) \<in> set (eventsInFlight twoLogger) \<and>
   target processedClick = Some (EventTarget 1) \<and>
   getSurfaceId (EventTarget 1) \<in> {1} \<and>
   processingStartTime processedClick \<noteq> None \<and>
   processingEndTime processedClick \<noteq> None \<and>
   \<not> isWaitingForMount processedClick \<and>
   dispatchPendingEventTimingEntries True (\<lambda>i. 16) {1} twoLogger = Inr parkedLogger \<and>
   reported parkedLogger = reported twoLogger \<and>
   (1, processedClick\<lparr>isWaitingForMount := True\<rparr>) \<in> set (eventsInFlight parkedLogger)"
proof -
  have h1: "reporterAlive twoLogger"
    and h2: "distinct (map fst (eventsInFlight twoLogger))"
    and h3: "(1, processedClick) \<in> set (eventsInFlight twoLogger)"
    by (simp_all add: twoLogger_def)
  have h4: "target processedClick = Some (EventTarget 1)"
    and h5: "getSurfaceId (EventTarget 1) \<in> {1}"
    and h6: "processingStartTime processedClick \<noteq> None"
    and h7: "processingEndTime processedClick \<noteq> None"
    and h8: "\<not> isWaitingForMount processedClick"
    by (simp_all add: processedClick_def)
  have d: "dispatchPendingEventTimingEntries True (\<lambda>i. 16) {1} twoLogger = Inr parkedLogger"
    by (rule dispatch_twoLogger)
  have r: "reported parkedLogger = reported twoLogger"
    by (simp add: parkedLogger_def twoLogger_def)
  from dispatch_defers_pending_surface [OF h1 h2 h3 h4 h5, of True "\<lambda>i. 16"] obtain s'
    where 1: "dispatchPendingEventTimingEntries True (\<lambda>i. 16) {1} twoLogger = Inr s'"
      and 2: "if processingStartTime processedClick \<noteq> None \<and>
                 processingEndTime processedClick \<noteq> None \<and> \<not> isWaitingForMount processedClick
              then (1, processedClick\<lparr>isWaitingForMount := True\<rparr>) \<in> set (eventsInFlight s')
              else (1, processedClick) \<in> set (eventsInFlight s')"
    by blast
  from 1 d have "s' = parkedLogger" by simp
  with 2 h6 h7 h8
  have m: "(1, processedClick\<lparr>isWaitingForMount := True\<rparr>) \<in> set (eventsInFlight parkedLogger)"
    by simp
  from h1 h2 h3 h4 h5 h6 h7 h8 d r m show ?thesis
    by (intro conjI)
qed

section \<open>The mount of a surface\<close>

lemma run_parkedLogger:
  "run std_hash debug
     ((clickCalls @ [OnEventStart ''topClick'' None (Some 5) 13]) @
      [DispatchPendingEventTimingEntries {1} (\<lambda>i. 16)])
     (newLogger True 0) = Inr parkedLogger"
  by (subst run_append) (simp add: run_twoLogger dispatch_twoLogger)

lemma reachable_parkedLogger: "reachable std_hash debug parkedLogger"
  unfolding reachable_def using run_parkedLogger by blast

lemma mounted_iff:
  "mounted root e \<longleftrightarrow>
     isWaitingForMount e \<and>
     (\<exists>tg r. target e = Some tg \<and> root = Some r \<and> getSurfaceId tg = getRootSurfaceId r)"
  by (auto simp: mounted_def isTargetInRootShadowNode_def split: option.splits)

text \<open>
  Claim C4. In every state a logger reaches, with the sink alive,
  \<^verbatim>\<open>shadowTreeDidMount\<close> returns the state in which exactly the records that are marked
  waiting-for-mount and whose target has the surface id of the root are gone from the table,
  all other records being where and what they were, and in which the sink has received, for
  each of the records removed, one report made of the name, the start time, the duration
  \<open>mountTime - startTime\<close>, the two processing time stamps (both are set) and the
  interaction id of the record. Nothing else changes.
\<close>

theorem shadowTreeDidMount_reports_waiting:
  assumes "reachable hash debug s" and "reporterAlive s"
  shows "shadowTreeDidMount debug root mountTime s =
     Inr (s\<lparr>eventsInFlight :=
              filter (\<lambda>(t, e). \<not> (isWaitingForMount e \<and>
                  (\<exists>tg r. target e = Some tg \<and> root = Some r \<and>
                     getSurfaceId tg = getRootSurfaceId r)))
                (eventsInFlight s),
            reported :=
              reported s @
              map (\<lambda>(t, e).
                    (t, \<lparr>evName = name e, evStartTime = startTime e,
                         evDuration = mountTime - startTime e,
                         evProcessingStart = the (processingStartTime e),
                         evProcessingEnd = the (processingEndTime e),
                         evInteractionId = interactionId e\<rparr>))
                (filter (\<lambda>(t, e). isWaitingForMount e \<and>
                    (\<exists>tg r. target e = Some tg \<and> root = Some r \<and>
                       getSurfaceId tg = getRootSurfaceId r))
                  (eventsInFlight s))\<rparr>) \<and>
   (\<forall>(t, e) \<in> set (eventsInFlight s).
      isWaitingForMount e \<longrightarrow> processingStartTime e \<noteq> None \<and> processingEndTime e \<noteq> None)"
proof -
  from assms(1) have "loggerInv s" by (rule loggerInv_reachable)
  then have pk: "\<forall>(t, e) \<in> set (eventsInFlight s).
      isWaitingForMount e \<longrightarrow> \<not> isWaitingForDispatch e"
    by (rule loggerInv_parked)
  have t: "timing mountTime = (\<lambda>e. \<lparr>evName = name e, evStartTime = startTime e,
                         evDuration = mountTime - startTime e,
                         evProcessingStart = the (processingStartTime e),
                         evProcessingEnd = the (processingEndTime e),
                         evInteractionId = interactionId e\<rparr>)"
    by (rule ext) (simp add: timing_def)
  have "shadowTreeDidMount debug root mountTime s =
     Inr (s\<lparr>eventsInFlight := filter (\<lambda>(t, e). \<not> mounted root e) (eventsInFlight s),
            reported :=
              reported s @ map (\<lambda>(t, e). (t, timing mountTime e))
                (filter (\<lambda>(t, e). mounted root e) (eventsInFlight s))\<rparr>)"
    by (rule mount_Inr[OF assms(2) pk])
  then have 1: "shadowTreeDidMount debug root mountTime s =
     Inr (s\<lparr>eventsInFlight :=
              filter (\<lambda>(t, e). \<not> (isWaitingForMount e \<and>
                  (\<exists>tg r. target e = Some tg \<and> root = Some r \<and>
                     getSurfaceId tg = getRootSurfaceId r)))
                (eventsInFlight s),
            reported :=
              reported s @
              map (\<lambda>(t, e).
                    (t, \<lparr>evName = name e, evStartTime = startTime e,
                         evDuration = mountTime - startTime e,
                         evProcessingStart = the (processingStartTime e),
                         evProcessingEnd = the (processingEndTime e),
                         evInteractionId = interactionId e\<rparr>))
                (filter (\<lambda>(t, e). isWaitingForMount e \<and>
                    (\<exists>tg r. target e = Some tg \<and> root = Some r \<and>
                       getSurfaceId tg = getRootSurfaceId r))
                  (eventsInFlight s))\<rparr>)"
    unfolding mounted_iff t .
  from pk have 2: "\<forall>(t, e) \<in> set (eventsInFlight s).
      isWaitingForMount e \<longrightarrow> processingStartTime e \<noteq> None \<and> processingEndTime e \<noteq> None"
    by (auto simp: isWaitingForDispatch_def)
  from 1 2 show ?thesis by (rule conjI)
qed

theorem shadowTreeDidMount_reports_waiting_witness:
  "reachable std_hash True parkedLogger \<and> reporterAlive parkedLogger \<and>
   shadowTreeDidMount True (Some (RootShadowNode 1)) 30 parkedLogger =
     Inr (parkedLogger
           \<lparr>eventsInFlight := [(2, unprocessedClick)],
            reported :=
              [(1, \<lparr>evName = ''click'', evStartTime = 10, evDuration = 20,
                    evProcessingStart = 11, evProcessingEnd = 12,
                    evInteractionId = None\<rparr>)]\<rparr>)"
proof -
  have h1: "reachable std_hash True parkedLogger"
    by (rule reachable_parkedLogger)
  have h2: "reporterAlive parkedLogger"
    by (simp add: parkedLogger_def)
  from shadowTreeDidMount_reports_waiting [OF h1 h2, of "Some (RootShadowNode 1)" 30]
  have "shadowTreeDidMount True (Some (RootShadowNode 1)) 30 parkedLogger =
     Inr (parkedLogger
           \<lparr>eventsInFlight := [(2, unprocessedClick)],
            reported :=
              [(1, \<lparr>evName = ''click'', evStartTime = 10, evDuration = 20,
                    evProcessingStart = 11, evProcessingEnd = 12,
                    evInteractionId = None\<rparr>)]\<rparr>)"
    by (simp add: parkedLogger_def unprocessedClick_def newEventEntry_def processedClick_def)
  with h1 h2 show ?thesis by (intro conjI)
qed

section \<open>The flag \<open>isWaitingForMount\<close> is never taken back\<close>

lemma mountLoop_Inr:
  "mountLoop debug root mountTime table rep = Inr (table', rep') \<Longrightarrow>
     table' = filter (\<lambda>(t, e). \<not> mounted root e) table \<and>
     rep' = rep @ map (\<lambda>(t, e). (t, timing mountTime e))
                    (filter (\<lambda>(t, e). mounted root e) table)"
proof (induction table arbitrary: rep table' rep')
  case Nil
  then show ?case by simp
next
  case (Cons p table)
  obtain tag entry where p: "p = (tag, entry)" by (cases p)
  show ?case
  proof (cases "mounted root entry")
    case True
    with Cons.prems obtain ev where ev: "reportEntry debug mountTime tag entry = Inr ev"
      and rest: "mountLoop debug root mountTime table (rep @ [ev]) = Inr (table', rep')"
      by (auto simp: p mounted_def split: sum.splits)
    from reportEntry_Inr[OF ev] have "ev = (tag, timing mountTime entry)" by simp
    with Cons.IH[OF rest] True show ?thesis by (simp add: p)
  next
    case False
    with Cons.prems obtain r where rest: "mountLoop debug root mountTime table rep = Inr (r, rep')"
      and t: "table' = (tag, entry) # r"
      by (auto simp: p mounted_def split: sum.splits)
    from Cons.IH[OF rest] False t show ?thesis by (simp add: p)
  qed
qed

lemma mount_result:
  assumes "shadowTreeDidMount debug root mountTime s = Inr s'" and "reporterAlive s"
  shows "eventsInFlight s' = filter (\<lambda>(t, e). \<not> mounted root e) (eventsInFlight s) \<and>
         reported s' = reported s @ map (\<lambda>(t, e). (t, timing mountTime e))
                    (filter (\<lambda>(t, e). mounted root e) (eventsInFlight s))"
proof -
  from assms obtain table' rep'
    where l: "mountLoop debug root mountTime (eventsInFlight s) (reported s) = Inr (table', rep')"
      and s': "s' = s\<lparr>eventsInFlight := table', reported := rep'\<rparr>"
    by (auto simp: shadowTreeDidMount_def split: sum.splits)
  from mountLoop_Inr[OF l] s' show ?thesis by simp
qed

lemma update_entry_keeps_flag:
  assumes "distinct (map fst table)" and "(tag, e) \<in> set table" and "isWaitingForMount e"
    and "\<And>x. isWaitingForMount (f x) = isWaitingForMount x"
  shows "\<exists>e'. (tag, e') \<in> set (update_entry tag' f table) \<and> isWaitingForMount e'"
proof (cases "tag = tag'")
  case True
  with update_entry_hit[OF assms(1,2), of f] assms(3,4) show ?thesis by auto
next
  case False
  with update_entry_other[OF _ assms(2), of tag' f] assms(3) show ?thesis by auto
qed

lemma emplace_keeps:
  "distinct (map fst table) \<Longrightarrow> distinct (map fst (emplace t x table))"
  "(tag, e) \<in> set table \<Longrightarrow> (tag, e) \<in> set (emplace t x table)"
  by (auto simp: emplace_def)

lemma onEventStart_keeps:
  assumes "distinct (map fst (eventsInFlight s))" and "(tag, e) \<in> set (eventsInFlight s)"
  shows "distinct (map fst (eventsInFlight (snd (onEventStart hash nm tgt ts now s)))) \<and>
         (tag, e) \<in> set (eventsInFlight (snd (onEventStart hash nm tgt ts now s))) \<and>
         reported (snd (onEventStart hash nm tgt ts now s)) = reported s"
  using assms
  by (simp add: onEventStart_def createEventTag_def Let_def emplace_keeps split: option.splits)

text \<open>
  Claim C7. Take a table with distinct keys, a record in it that is marked
  waiting-for-mount, and any call that returns. Afterwards the keys are still distinct, and
  either the tag still has a record and that record is still marked, or the tag is gone from
  the table, the call was \<^verbatim>\<open>shadowTreeDidMount\<close> and the record is among the reports this
  call made. When the call is \<^verbatim>\<open>dispatchPendingEventTimingEntries\<close>, the record stays
  in the table as it is and no report is made for its tag.
\<close>

theorem isWaitingForMount_monotone:
  assumes "distinct (map fst (eventsInFlight s))"
    and "(tag, e) \<in> set (eventsInFlight s)"
    and "isWaitingForMount e"
    and "step hash debug c s = Inr s'"
  shows "distinct (map fst (eventsInFlight s')) \<and>
     ((\<exists>e'. (tag, e') \<in> set (eventsInFlight s') \<and> isWaitingForMount e') \<or>
      (tag \<notin> fst ` set (eventsInFlight s') \<and>
       (\<exists>root mountTime new. c = ShadowTreeDidMount root mountTime \<and>
          reported s' = reported s @ new \<and> (tag, timing mountTime e) \<in> set new))) \<and>
     (\<forall>pending clock. c = DispatchPendingEventTimingEntries pending clock \<longrightarrow>
        (tag, e) \<in> set (eventsInFlight s') \<and>
        (\<exists>new. reported s' = reported s @ new \<and> tag \<notin> fst ` set new))"
proof (cases c)
  case (OnEventStart nm tgt ts now)
  with assms(4) have "s' = snd (onEventStart hash nm tgt ts now s)" by simp
  with onEventStart_keeps[OF assms(1,2), of hash nm tgt ts now] assms(3) OnEventStart
  show ?thesis by auto
next
  case (OnEventProcessingStart tag' now)
  let ?f = "\<lambda>e. e\<lparr>processingStartTime := Some now\<rparr>"
  from assms(4) have "s' = s \<or> s' = s\<lparr>eventsInFlight := update_entry tag' ?f (eventsInFlight s)\<rparr>"
    by (auto simp: OnEventProcessingStart onEventProcessingStart_def split: option.splits)
  then show ?thesis
  proof
    assume "s' = s"
    with assms(1-3) OnEventProcessingStart show ?thesis by auto
  next
    assume s': "s' = s\<lparr>eventsInFlight := update_entry tag' ?f (eventsInFlight s)\<rparr>"
    from update_entry_keeps_flag[OF assms(1-3), of ?f tag']
    have "\<exists>e'. (tag, e') \<in> set (eventsInFlight s') \<and> isWaitingForMount e'"
      by (simp add: s')
    moreover from assms(1) have "distinct (map fst (eventsInFlight s'))"
      by (simp add: s')
    ultimately show ?thesis using OnEventProcessingStart by simp
  qed
next
  case (OnEventProcessingEnd tag' now)
  let ?f = "\<lambda>e. e\<lparr>processingEndTime := Some now\<rparr>"
  from assms(4) have "s' = s \<or> s' = s\<lparr>eventsInFlight := update_entry tag' ?f (eventsInFlight s)\<rparr>"
    by (auto simp: OnEventProcessingEnd onEventProcessingEnd_def
        split: option.splits sum.splits if_splits)
  then show ?thesis
  proof
    assume "s' = s"
    with assms(1-3) OnEventProcessingEnd show ?thesis by auto
  next
    assume s': "s' = s\<lparr>eventsInFlight := update_entry tag' ?f (eventsInFlight s)\<rparr>"
    from update_entry_keeps_flag[OF assms(1-3), of ?f tag']
    have "\<exists>e'. (tag, e') \<in> set (eventsInFlight s') \<and> isWaitingForMount e'"
      by (simp add: s')
    moreover from assms(1) have "distinct (map fst (eventsInFlight s'))"
      by (simp add: s')
    ultimately show ?thesis using OnEventProcessingEnd by simp
  qed
next
  case (DispatchPendingEventTimingEntries pending clock)
  from assms(3) have w: "isWaitingForDispatch e \<or> isWaitingForMount e" by simp
  from dispatch_keeps_waiting[OF assms(1,2) w, of debug clock pending] assms(4)
  obtain new where k: "(tag, e) \<in> set (eventsInFlight s')"
    and r: "reported s' = reported s @ new" and n: "tag \<notin> fst ` set new"
    by (auto simp: DispatchPendingEventTimingEntries)
  have d: "distinct (map fst (eventsInFlight s'))"
  proof (cases "reporterAlive s")
    case True
    from assms(4) dispatch_Inr[OF True, of debug clock pending]
    have "eventsInFlight s' = map (\<lambda>(t, e). (t, park pending e))
            (filter (\<lambda>(t, e). \<not> dispatchable pending e) (eventsInFlight s))"
      by (auto simp: DispatchPendingEventTimingEntries)
    then have "map fst (eventsInFlight s') =
        map fst (filter (\<lambda>(t, e). \<not> dispatchable pending e) (eventsInFlight s))"
      by (simp only: map_fst_park)
    with distinct_map_fst_filter[OF assms(1)] show ?thesis by simp
  next
    case False
    with assms(1,4) show ?thesis
      by (simp add: DispatchPendingEventTimingEntries dispatchPendingEventTimingEntries_def)
  qed
  from k assms(3) have "\<exists>e'. (tag, e') \<in> set (eventsInFlight s') \<and> isWaitingForMount e'"
    by blast
  with d k r n show ?thesis
    using DispatchPendingEventTimingEntries by blast
next
  case (ShadowTreeDidMount root mountTime)
  show ?thesis
  proof (cases "reporterAlive s")
    case False
    with assms(4) have "s' = s"
      by (simp add: ShadowTreeDidMount shadowTreeDidMount_def)
    with assms(1-3) ShadowTreeDidMount show ?thesis by auto
  next
    case True
    from assms(4) have m: "shadowTreeDidMount debug root mountTime s = Inr s'"
      by (simp add: ShadowTreeDidMount)
    from mount_result[OF m True]
    have t: "eventsInFlight s' = filter (\<lambda>(t, e). \<not> mounted root e) (eventsInFlight s)"
      and r: "reported s' = reported s @ map (\<lambda>(t, e). (t, timing mountTime e))
                    (filter (\<lambda>(t, e). mounted root e) (eventsInFlight s))"
      by simp_all
    from t distinct_map_fst_filter[OF assms(1)] have d: "distinct (map fst (eventsInFlight s'))"
      by simp
    show ?thesis
    proof (cases "mounted root e")
      case False
      with assms(2) t have "(tag, e) \<in> set (eventsInFlight s')" by simp
      with assms(3) d ShadowTreeDidMount show ?thesis by auto
    next
      case True
      from filter_keys_iff[OF assms(1,2), of "\<lambda>e. \<not> mounted root e"] True t
      have gone: "tag \<notin> fst ` set (eventsInFlight s')" by simp
      from assms(2) True have "(tag, e) \<in> set (filter (\<lambda>(t, e). mounted root e) (eventsInFlight s))"
        by simp
      then have "(\<lambda>(t, e). (t, timing mountTime e)) (tag, e) \<in>
          set (map (\<lambda>(t, e). (t, timing mountTime e))
                (filter (\<lambda>(t, e). mounted root e) (eventsInFlight s)))"
        unfolding set_map by (rule imageI)
      then have "(tag, timing mountTime e) \<in>
          set (map (\<lambda>(t, e). (t, timing mountTime e))
                (filter (\<lambda>(t, e). mounted root e) (eventsInFlight s)))"
        by simp
      with r gone d ShadowTreeDidMount show ?thesis by blast
    qed
  qed
next
  case ReporterDestroyed
  with assms show ?thesis by auto
next
  case TagCreatedElsewhere
  with assms show ?thesis by (auto simp: createEventTag_def)
qed

theorem isWaitingForMount_monotone_witness:
  "distinct (map fst (eventsInFlight parkedLogger)) \<and>
   (1, processedClick\<lparr>isWaitingForMount := True\<rparr>) \<in> set (eventsInFlight parkedLogger) \<and>
   isWaitingForMount (processedClick\<lparr>isWaitingForMount := True\<rparr>) \<and>
   step std_hash True (DispatchPendingEventTimingEntries {} (\<lambda>i. 20)) parkedLogger =
     Inr parkedLogger \<and>
   (\<exists>new. reported parkedLogger = reported parkedLogger @ new \<and> 1 \<notin> fst ` set new)"
proof -
  have h1: "distinct (map fst (eventsInFlight parkedLogger))"
    and h2: "(1, processedClick\<lparr>isWaitingForMount := True\<rparr>) \<in> set (eventsInFlight parkedLogger)"
    by (simp_all add: parkedLogger_def)
  have h3: "isWaitingForMount (processedClick\<lparr>isWaitingForMount := True\<rparr>)"
    by simp
  have h4: "step std_hash True (DispatchPendingEventTimingEntries {} (\<lambda>i. 20)) parkedLogger =
     Inr parkedLogger"
    by (simp add: dispatchPendingEventTimingEntries_def parkedLogger_def unprocessedClick_def
        newEventEntry_def processedClick_def isWaitingForDispatch_def)
  from isWaitingForMount_monotone [OF h1 h2 h3 h4]
  have "\<exists>new. reported parkedLogger = reported parkedLogger @ new \<and> 1 \<notin> fst ` set new"
    by blast
  with h1 h2 h3 h4 show ?thesis by (intro conjI)
qed

section \<open>Records without a target\<close>

lemma run_nullTargetLogger:
  "run std_hash debug
     ((clickCalls @ [OnEventStart ''topClick'' None (Some 5) 13]) @
      [OnEventProcessingStart 2 14, OnEventProcessingEnd 2 15])
     (newLogger True 0) = Inr nullTargetLogger"
  by (subst run_append)
     (simp add: run_twoLogger twoLogger_def nullTargetLogger_def onEventProcessingStart_def
        onEventProcessingEnd_def react_native_assert_def unprocessedClick_def newEventEntry_def
        processedNullClick_def)

lemma reachable_nullTargetLogger: "reachable std_hash debug nullTargetLogger"
  unfolding reachable_def using run_nullTargetLogger by blast

lemma mount_keeps:
  assumes "reporterAlive s" and "loggerInv s"
    and "(tag, e) \<in> set (eventsInFlight s)" and "\<not> mounted root e"
  shows "\<exists>s' new. shadowTreeDidMount debug root mountTime s = Inr s' \<and>
           (tag, e) \<in> set (eventsInFlight s') \<and>
           reported s' = reported s @ new \<and> tag \<notin> fst ` set new"
proof -
  let ?new = "map (\<lambda>(t, e). (t, timing mountTime e))
                (filter (\<lambda>(t, e). mounted root e) (eventsInFlight s))"
  let ?s' = "s\<lparr>eventsInFlight := filter (\<lambda>(t, e). \<not> mounted root e) (eventsInFlight s),
            reported := reported s @ ?new\<rparr>"
  from assms(2) have d: "distinct (map fst (eventsInFlight s))"
    by (simp add: loggerInv_def)
  have 1: "shadowTreeDidMount debug root mountTime s = Inr ?s'"
    by (rule mount_Inr[OF assms(1) loggerInv_parked[OF assms(2)]])
  from assms(3,4) have 2: "(tag, e) \<in> set (eventsInFlight ?s')"
    by simp
  have 3: "reported ?s' = reported s @ ?new"
    by simp
  have "map fst ?new = map fst (filter (\<lambda>(t, e). mounted root e) (eventsInFlight s))"
    by (rule map_fst_park)
  then have "fst ` set ?new = fst ` set (filter (\<lambda>(t, e). mounted root e) (eventsInFlight s))"
    by (metis set_map)
  with filter_keys_iff[OF d assms(3), of "mounted root"] assms(4)
  have 4: "tag \<notin> fst ` set ?new" by simp
  show ?thesis
    by (rule exI[of _ ?s'], rule exI[of _ ?new]) (intro conjI 1 2 3 4)
qed

text \<open>
  Claim C10. In every state a logger reaches, with the sink alive, a record whose target is
  null is not marked waiting-for-mount. \<^verbatim>\<open>dispatchPendingEventTimingEntries\<close>, whatever
  the set of pending surfaces is, reports and erases it when both processing time stamps
  are set, and otherwise keeps it as it is (so it does not mark it) and reports nothing for
  its tag. \<^verbatim>\<open>shadowTreeDidMount\<close>, whatever the root is, keeps it as it is and reports
  nothing for its tag.
\<close>

theorem null_target_never_waits:
  assumes "reachable hash debug s"
    and "reporterAlive s"
    and "(tag, e) \<in> set (eventsInFlight s)"
    and "target e = None"
  shows "\<not> isWaitingForMount e \<and>
     (\<exists>s' new. dispatchPendingEventTimingEntries debug clock pending s = Inr s' \<and>
        reported s' = reported s @ new \<and>
        (if processingStartTime e \<noteq> None \<and> processingEndTime e \<noteq> None
         then tag \<notin> fst ` set (eventsInFlight s') \<and> (\<exists>i. (tag, timing (clock i) e) \<in> set new)
         else (tag, e) \<in> set (eventsInFlight s') \<and> tag \<notin> fst ` set new)) \<and>
     (\<exists>s' new. shadowTreeDidMount debug root mountTime s = Inr s' \<and>
        (tag, e) \<in> set (eventsInFlight s') \<and>
        reported s' = reported s @ new \<and> tag \<notin> fst ` set new)"
proof -
  from assms(1) have inv: "loggerInv s" by (rule loggerInv_reachable)
  then have d: "distinct (map fst (eventsInFlight s))"
    and pk: "\<forall>(t, e) \<in> set (eventsInFlight s).
        isWaitingForMount e \<longrightarrow> \<not> isWaitingForDispatch e \<and> target e \<noteq> None"
    by (simp_all add: loggerInv_def)
  from pk assms(3,4) have nw: "\<not> isWaitingForMount e" by auto
  from assms(4) have np: "\<not> hasPendingRenderingUpdates (target e) pending"
    by (simp add: hasPendingRenderingUpdates_def)
  have dispatch: "\<exists>s' new. dispatchPendingEventTimingEntries debug clock pending s = Inr s' \<and>
        reported s' = reported s @ new \<and>
        (if processingStartTime e \<noteq> None \<and> processingEndTime e \<noteq> None
         then tag \<notin> fst ` set (eventsInFlight s') \<and> (\<exists>i. (tag, timing (clock i) e) \<in> set new)
         else (tag, e) \<in> set (eventsInFlight s') \<and> tag \<notin> fst ` set new)"
  proof (cases "processingStartTime e \<noteq> None \<and> processingEndTime e \<noteq> None")
    case True
    with nw np have "dispatchable pending e"
      by (simp add: dispatchable_def isWaitingForDispatch_def)
    from dispatch_reports[OF assms(2) d assms(3) this, of debug clock] obtain s' new i
      where 1: "dispatchPendingEventTimingEntries debug clock pending s = Inr s'"
        and 2: "tag \<notin> fst ` set (eventsInFlight s')"
        and 3: "reported s' = reported s @ new"
        and 4: "(tag, timing (clock i) e) \<in> set new"
      by blast
    from 4 have 5: "\<exists>i. (tag, timing (clock i) e) \<in> set new" ..
    from 2 5 True have "if processingStartTime e \<noteq> None \<and> processingEndTime e \<noteq> None
         then tag \<notin> fst ` set (eventsInFlight s') \<and> (\<exists>i. (tag, timing (clock i) e) \<in> set new)
         else (tag, e) \<in> set (eventsInFlight s') \<and> tag \<notin> fst ` set new"
      by presburger
    with 1 3 show ?thesis by blast
  next
    case False
    then have w: "isWaitingForDispatch e \<or> isWaitingForMount e"
      by (auto simp: isWaitingForDispatch_def)
    from dispatch_keeps_waiting[OF d assms(3) w, of debug clock pending] obtain s' new
      where 1: "dispatchPendingEventTimingEntries debug clock pending s = Inr s'"
        and 2: "(tag, e) \<in> set (eventsInFlight s')"
        and 3: "reported s' = reported s @ new"
        and 4: "tag \<notin> fst ` set new"
      by blast
    from 2 4 False have "if processingStartTime e \<noteq> None \<and> processingEndTime e \<noteq> None
         then tag \<notin> fst ` set (eventsInFlight s') \<and> (\<exists>i. (tag, timing (clock i) e) \<in> set new)
         else (tag, e) \<in> set (eventsInFlight s') \<and> tag \<notin> fst ` set new"
      by presburger
    with 1 3 show ?thesis by blast
  qed
  from nw have "\<not> mounted root e" by (simp add: mounted_def)
  from mount_keeps[OF assms(2) inv assms(3) this]
  have mount: "\<exists>s' new. shadowTreeDidMount debug root mountTime s = Inr s' \<and>
        (tag, e) \<in> set (eventsInFlight s') \<and>
        reported s' = reported s @ new \<and> tag \<notin> fst ` set new" .
  from nw dispatch mount show ?thesis by (intro conjI)
qed

theorem null_target_never_waits_witness:
  "reachable std_hash True nullTargetLogger \<and> reporterAlive nullTargetLogger \<and>
   (2, processedNullClick) \<in> set (eventsInFlight nullTargetLogger) \<and>
   target processedNullClick = None \<and>
   \<not> isWaitingForMount processedNullClick \<and>
   dispatchPendingEventTimingEntries True (\<lambda>i. 16) {1} nullTargetLogger =
     Inr (nullTargetLogger
           \<lparr>eventsInFlight := [(1, processedClick\<lparr>isWaitingForMount := True\<rparr>)],
            reported := [(2, timing 16 processedNullClick)]\<rparr>) \<and>
   (\<exists>s'. shadowTreeDidMount True (Some (RootShadowNode 1)) 30 nullTargetLogger = Inr s' \<and>
      (2, processedNullClick) \<in> set (eventsInFlight s'))"
proof -
  have h1: "reachable std_hash True nullTargetLogger"
    by (rule reachable_nullTargetLogger)
  have h2: "reporterAlive nullTargetLogger"
    and h3: "(2, processedNullClick) \<in> set (eventsInFlight nullTargetLogger)"
    by (simp_all add: nullTargetLogger_def)
  have h4: "target processedNullClick = None"
    by (simp add: processedNullClick_def)
  have d: "dispatchPendingEventTimingEntries True (\<lambda>i. 16) {1} nullTargetLogger =
     Inr (nullTargetLogger
           \<lparr>eventsInFlight := [(1, processedClick\<lparr>isWaitingForMount := True\<rparr>)],
            reported := [(2, timing 16 processedNullClick)]\<rparr>)"
    by (simp add: dispatchPendingEventTimingEntries_def nullTargetLogger_def
        processedNullClick_def processedClick_def isWaitingForDispatch_def
        hasPendingRenderingUpdates_def reportEntry_def react_native_assert_def
        optional_value_def timing_def)
  note inst = null_target_never_waits [OF h1 h2 h3 h4, of "\<lambda>i. 16" "{1}"
      "Some (RootShadowNode 1)" 30]
  from inst have nw: "\<not> isWaitingForMount processedNullClick"
    by (rule conjunct1)
  from inst have m: "\<exists>s'. shadowTreeDidMount True (Some (RootShadowNode 1)) 30 nullTargetLogger = Inr s' \<and>
      (2, processedNullClick) \<in> set (eventsInFlight s')"
    by blast
  from h1 h2 h3 h4 nw d m show ?thesis by (intro conjI)
qed

section \<open>The order of the two processing time stamps\<close>

lemma all_update_entry:
  assumes "\<forall>(t, e) \<in> set table. P t e"
    and "\<And>e. (tag, e) \<in> set table \<Longrightarrow> P tag (f e)"
  shows "\<forall>(t, e) \<in> set (update_entry tag f table). P t e"
proof -
  have "P t e" if "(t, e) \<in> set (update_entry tag f table)" for t e
    using set_update_entry[OF that] assms by auto
  then show ?thesis by auto
qed

lemma map_of_distinct:
  "distinct (map fst table) \<Longrightarrow> (tag, e) \<in> set table \<Longrightarrow> map_of table tag = Some e"
  by simp

lemma dispatch_entries:
  assumes "dispatchPendingEventTimingEntries debug clock pending s = Inr s'"
    and "(t, e') \<in> set (eventsInFlight s')"
  shows "\<exists>e. (t, e) \<in> set (eventsInFlight s) \<and> (e' = e \<or> e' = e\<lparr>isWaitingForMount := True\<rparr>)"
proof (cases "reporterAlive s")
  case False
  with assms show ?thesis by (auto simp: dispatchPendingEventTimingEntries_def)
next
  case True
  from assms(1) dispatch_Inr[OF True, of debug clock pending]
  have "eventsInFlight s' = map (\<lambda>(t, e). (t, park pending e))
            (filter (\<lambda>(t, e). \<not> dispatchable pending e) (eventsInFlight s))"
    by auto
  with assms(2) obtain e where "(t, e) \<in> set (eventsInFlight s)" and "e' = park pending e"
    by auto
  then show ?thesis by (auto simp: park_def)
qed

lemma mount_entries:
  assumes "shadowTreeDidMount debug root mountTime s = Inr s'"
    and "(t, e) \<in> set (eventsInFlight s')"
  shows "(t, e) \<in> set (eventsInFlight s)"
proof (cases "reporterAlive s")
  case False
  with assms show ?thesis by (auto simp: shadowTreeDidMount_def)
next
  case True
  from mount_result[OF assms(1) True] assms(2) show ?thesis by auto
qed

lemma onEventStart_entries:
  assumes "(t, e) \<in> set (eventsInFlight (snd (onEventStart hash nm tgt ts now s)))"
  shows "(t, e) \<in> set (eventsInFlight s) \<or>
         (t = Suc (sCurrentEventTag s) \<and> processingStartTime e = None \<and> processingEndTime e = None)"
  using assms
  by (auto simp: onEventStart_def createEventTag_def Let_def emplace_def newEventEntry_def
      split: option.splits if_splits)

lemma ordered_step:
  assumes "processingOrdered s" and "distinct (map fst (eventsInFlight s))"
    and "step hash debug c s = Inr s'"
    and "debug \<or> (\<forall>tag now. c = OnEventProcessingEnd tag now \<longrightarrow> processingStarted tag s)"
  shows "processingOrdered s'"
proof (cases c)
  case (OnEventStart nm tgt ts now)
  with assms(3) have s': "s' = snd (onEventStart hash nm tgt ts now s)" by simp
  show ?thesis
    unfolding processingOrdered_def s'
    using onEventStart_entries[of _ _ hash nm tgt ts now s] assms(1)
    by (fastforce simp: processingOrdered_def)
next
  case (OnEventProcessingStart tag now)
  from assms(3) have "s' = s \<or> s' = s\<lparr>eventsInFlight :=
      update_entry tag (\<lambda>e. e\<lparr>processingStartTime := Some now\<rparr>) (eventsInFlight s)\<rparr>"
    by (auto simp: OnEventProcessingStart onEventProcessingStart_def split: option.splits)
  then show ?thesis
  proof
    assume "s' = s"
    with assms(1) show ?thesis by simp
  next
    assume s': "s' = s\<lparr>eventsInFlight :=
      update_entry tag (\<lambda>e. e\<lparr>processingStartTime := Some now\<rparr>) (eventsInFlight s)\<rparr>"
    from assms(1) have "\<forall>(t, e) \<in> set (update_entry tag (\<lambda>e. e\<lparr>processingStartTime := Some now\<rparr>)
        (eventsInFlight s)). processingEndTime e \<noteq> None \<longrightarrow> processingStartTime e \<noteq> None"
      by (intro all_update_entry) (auto simp: processingOrdered_def)
    then show ?thesis by (simp add: s' processingOrdered_def)
  qed
next
  case (OnEventProcessingEnd tag now)
  show ?thesis
  proof (cases "reporterAlive s \<and> map_of (eventsInFlight s) tag \<noteq> None")
    case False
    with assms(3) have "s' = s"
      by (auto simp: OnEventProcessingEnd onEventProcessingEnd_def split: option.splits)
    with assms(1) show ?thesis by simp
  next
    case True
    then obtain entry where m: "map_of (eventsInFlight s) tag = Some entry" by auto
    with True assms(3)
    have s': "s' = s\<lparr>eventsInFlight :=
          update_entry tag (\<lambda>e. e\<lparr>processingEndTime := Some now\<rparr>) (eventsInFlight s)\<rparr>"
      and a: "react_native_assert debug (processingStartTime entry \<noteq> None) = Inr ()"
      by (auto simp: OnEventProcessingEnd onEventProcessingEnd_def split: sum.splits)
    have started: "processingStartTime e \<noteq> None" if "(tag, e) \<in> set (eventsInFlight s)" for e
    proof (cases debug)
      case True
      from map_of_distinct[OF assms(2) that] m have "e = entry" by simp
      with a True show ?thesis by (simp add: react_native_assert_def split: if_splits)
    next
      case False
      with assms(4) OnEventProcessingEnd have "processingStarted tag s" by simp
      with that show ?thesis by (simp add: processingStarted_def)
    qed
    from assms(1) have "\<forall>(t, e) \<in> set (update_entry tag (\<lambda>e. e\<lparr>processingEndTime := Some now\<rparr>)
        (eventsInFlight s)). processingEndTime e \<noteq> None \<longrightarrow> processingStartTime e \<noteq> None"
      by (intro all_update_entry) (auto simp: processingOrdered_def dest: started)
    then show ?thesis by (simp add: s' processingOrdered_def)
  qed
next
  case (DispatchPendingEventTimingEntries pending clock)
  with assms(3) have d: "dispatchPendingEventTimingEntries debug clock pending s = Inr s'"
    by simp
  have "processingEndTime e' \<noteq> None \<longrightarrow> processingStartTime e' \<noteq> None"
    if "(t, e') \<in> set (eventsInFlight s')" for t e'
    using dispatch_entries[OF d that] assms(1) by (auto simp: processingOrdered_def)
  then show ?thesis by (auto simp: processingOrdered_def)
next
  case (ShadowTreeDidMount root mountTime)
  with assms(3) have m: "shadowTreeDidMount debug root mountTime s = Inr s'"
    by simp
  have "processingEndTime e \<noteq> None \<longrightarrow> processingStartTime e \<noteq> None"
    if "(t, e) \<in> set (eventsInFlight s')" for t e
    using mount_entries[OF m that] assms(1) by (auto simp: processingOrdered_def)
  then show ?thesis by (auto simp: processingOrdered_def)
next
  case ReporterDestroyed
  with assms(3) have "eventsInFlight s' = eventsInFlight s" by auto
  with assms(1) show ?thesis by (simp add: processingOrdered_def)
next
  case TagCreatedElsewhere
  with assms(3) have "eventsInFlight s' = eventsInFlight s"
    by (auto simp: createEventTag_def)
  with assms(1) show ?thesis by (simp add: processingOrdered_def)
qed

lemma ordered_run_debug:
  "processingOrdered s \<Longrightarrow> loggerInv s \<Longrightarrow> run hash True cs s = Inr s' \<Longrightarrow>
     processingOrdered s'"
proof (induction cs arbitrary: s)
  case Nil
  then show ?case by simp
next
  case (Cons c cs)
  from Cons.prems(3) obtain s1 where s1: "step hash True c s = Inr s1"
    and r: "run hash True cs s1 = Inr s'"
    by (auto split: sum.splits)
  from Cons.prems(2) have d: "distinct (map fst (eventsInFlight s))"
    by (simp add: loggerInv_def)
  from ordered_step[OF Cons.prems(1) d s1] have "processingOrdered s1" by simp
  from Cons.IH[OF this loggerInv_step[OF Cons.prems(2) s1] r] show ?case .
qed

lemma update_entry_at:
  "distinct (map fst table) \<Longrightarrow> (tag, e') \<in> set (update_entry tag f table) \<Longrightarrow>
     \<exists>e0. (tag, e0) \<in> set table \<and> e' = f e0"
proof (induction table)
  case Nil
  then show ?case by simp
next
  case (Cons p table)
  obtain t e where p: "p = (t, e)" by (cases p)
  show ?case
  proof (cases "t = tag")
    case True
    with Cons.prems p have "e' = f e \<or> (tag, e') \<in> set table" by auto
    moreover from Cons.prems(1) True p have "tag \<notin> fst ` set table" by simp
    ultimately have "e' = f e" by (auto simp: rev_image_eqI)
    with True p show ?thesis by auto
  next
    case False
    with Cons.prems p have "(tag, e') \<in> set (update_entry tag f table)"
      and "distinct (map fst table)" by auto
    from Cons.IH[OF this(2,1)] show ?thesis by auto
  qed
qed

lemma dispatch_counter:
  "dispatchPendingEventTimingEntries debug clock pending s = Inr s' \<Longrightarrow>
     sCurrentEventTag s' = sCurrentEventTag s"
  by (auto simp: dispatchPendingEventTimingEntries_def split: if_splits sum.splits)

lemma mount_counter:
  "shadowTreeDidMount debug root mountTime s = Inr s' \<Longrightarrow>
     sCurrentEventTag s' = sCurrentEventTag s"
  by (auto simp: shadowTreeDidMount_def split: if_splits sum.splits)

lemma onEventStart_counter:
  "sCurrentEventTag s \<le> sCurrentEventTag (snd (onEventStart hash nm tgt ts now s))"
  by (simp add: onEventStart_def createEventTag_def Let_def split: option.splits)

lemma started_step:
  assumes "distinct (map fst (eventsInFlight s))" and "tag \<le> sCurrentEventTag s"
    and "processingStarted tag s" and "step hash debug c s = Inr s'"
  shows "processingStarted tag s' \<and> tag \<le> sCurrentEventTag s'"
proof (cases c)
  case (OnEventStart nm tgt ts now)
  with assms(4) have s': "s' = snd (onEventStart hash nm tgt ts now s)" by simp
  have "processingStartTime e \<noteq> None" if "(tag, e) \<in> set (eventsInFlight s')" for e
    using onEventStart_entries[of tag e hash nm tgt ts now s] that assms(2,3)
    by (auto simp: s' processingStarted_def)
  moreover from onEventStart_counter[of s hash nm tgt ts now] assms(2)
  have "tag \<le> sCurrentEventTag s'" by (simp add: s')
  ultimately show ?thesis by (simp add: processingStarted_def)
next
  case (OnEventProcessingStart tag' now)
  from assms(4) have "s' = s \<or> s' = s\<lparr>eventsInFlight :=
      update_entry tag' (\<lambda>e. e\<lparr>processingStartTime := Some now\<rparr>) (eventsInFlight s)\<rparr>"
    by (auto simp: OnEventProcessingStart onEventProcessingStart_def split: option.splits)
  then show ?thesis
  proof
    assume "s' = s"
    with assms(2,3) show ?thesis by simp
  next
    assume s': "s' = s\<lparr>eventsInFlight :=
      update_entry tag' (\<lambda>e. e\<lparr>processingStartTime := Some now\<rparr>) (eventsInFlight s)\<rparr>"
    have "processingStartTime e \<noteq> None" if "(tag, e) \<in> set (eventsInFlight s')" for e
      using set_update_entry[of tag e tag' "\<lambda>e. e\<lparr>processingStartTime := Some now\<rparr>"
          "eventsInFlight s"] that assms(3)
      by (auto simp: s' processingStarted_def)
    with assms(2) show ?thesis by (simp add: s' processingStarted_def)
  qed
next
  case (OnEventProcessingEnd tag' now)
  from assms(4) have "s' = s \<or> s' = s\<lparr>eventsInFlight :=
      update_entry tag' (\<lambda>e. e\<lparr>processingEndTime := Some now\<rparr>) (eventsInFlight s)\<rparr>"
    by (auto simp: OnEventProcessingEnd onEventProcessingEnd_def
        split: option.splits sum.splits if_splits)
  then show ?thesis
  proof
    assume "s' = s"
    with assms(2,3) show ?thesis by simp
  next
    assume s': "s' = s\<lparr>eventsInFlight :=
      update_entry tag' (\<lambda>e. e\<lparr>processingEndTime := Some now\<rparr>) (eventsInFlight s)\<rparr>"
    have "processingStartTime e \<noteq> None" if "(tag, e) \<in> set (eventsInFlight s')" for e
      using set_update_entry[of tag e tag' "\<lambda>e. e\<lparr>processingEndTime := Some now\<rparr>"
          "eventsInFlight s"] that assms(3)
      by (auto simp: s' processingStarted_def)
    with assms(2) show ?thesis by (simp add: s' processingStarted_def)
  qed
next
  case (DispatchPendingEventTimingEntries pending clock)
  with assms(4) have d: "dispatchPendingEventTimingEntries debug clock pending s = Inr s'"
    by simp
  have "processingStartTime e \<noteq> None" if "(tag, e) \<in> set (eventsInFlight s')" for e
    using dispatch_entries[OF d that] assms(3) by (auto simp: processingStarted_def)
  with dispatch_counter[OF d] assms(2) show ?thesis by (simp add: processingStarted_def)
next
  case (ShadowTreeDidMount root mountTime)
  with assms(4) have m: "shadowTreeDidMount debug root mountTime s = Inr s'"
    by simp
  have "processingStartTime e \<noteq> None" if "(tag, e) \<in> set (eventsInFlight s')" for e
    using mount_entries[OF m that] assms(3) by (auto simp: processingStarted_def)
  with mount_counter[OF m] assms(2) show ?thesis by (simp add: processingStarted_def)
next
  case ReporterDestroyed
  with assms(4) have "eventsInFlight s' = eventsInFlight s"
    and "sCurrentEventTag s' = sCurrentEventTag s" by auto
  with assms(2,3) show ?thesis by (simp add: processingStarted_def)
next
  case TagCreatedElsewhere
  with assms(4) have "eventsInFlight s' = eventsInFlight s"
    and "sCurrentEventTag s' = Suc (sCurrentEventTag s)" by (auto simp: createEventTag_def)
  with assms(2,3) show ?thesis by (simp add: processingStarted_def)
qed

lemma started_run:
  "loggerInv s \<Longrightarrow> tag \<le> sCurrentEventTag s \<Longrightarrow> processingStarted tag s \<Longrightarrow>
     run hash debug cs s = Inr s' \<Longrightarrow> processingStarted tag s'"
proof (induction cs arbitrary: s)
  case Nil
  then show ?case by simp
next
  case (Cons c cs)
  from Cons.prems(4) obtain s1 where s1: "step hash debug c s = Inr s1"
    and r: "run hash debug cs s1 = Inr s'"
    by (auto split: sum.splits)
  from Cons.prems(1) have d: "distinct (map fst (eventsInFlight s))"
    by (simp add: loggerInv_def)
  from started_step[OF d Cons.prems(2,3) s1]
  have "processingStarted tag s1" and "tag \<le> sCurrentEventTag s1" by simp_all
  from Cons.IH[OF loggerInv_step[OF Cons.prems(1) s1] this(2,1) r] show ?case .
qed

lemma onEventProcessingEnd_started:
  assumes "processingStarted tag s"
  shows "\<exists>s'. onEventProcessingEnd debug now tag s = Inr s'"
proof (cases "reporterAlive s \<and> map_of (eventsInFlight s) tag \<noteq> None")
  case False
  then show ?thesis
    by (auto simp: onEventProcessingEnd_def)
next
  case True
  then obtain entry where m: "map_of (eventsInFlight s) tag = Some entry" by auto
  then have "(tag, entry) \<in> set (eventsInFlight s)" by (rule map_of_SomeD)
  with assms have "processingStartTime entry \<noteq> None" by (simp add: processingStarted_def)
  with True m show ?thesis
    by (simp add: onEventProcessingEnd_def react_native_assert_def)
qed

lemma onEventProcessingStart_started:
  assumes "loggerInv s" and "reporterAlive s" and "(tag, e) \<in> set (eventsInFlight s)"
  shows "processingStarted tag (onEventProcessingStart now tag s) \<and>
         loggerInv (onEventProcessingStart now tag s) \<and>
         tag \<le> sCurrentEventTag (onEventProcessingStart now tag s)"
proof -
  from assms(1) have d: "distinct (map fst (eventsInFlight s))"
    and b: "\<forall>t \<in> fst ` set (eventsInFlight s). t \<le> sCurrentEventTag s"
    by (simp_all add: loggerInv_def)
  from map_of_distinct[OF d assms(3)] assms(2)
  have eq: "onEventProcessingStart now tag s = s\<lparr>eventsInFlight :=
      update_entry tag (\<lambda>e. e\<lparr>processingStartTime := Some now\<rparr>) (eventsInFlight s)\<rparr>"
    by (simp add: onEventProcessingStart_def)
  have "processingStartTime e' \<noteq> None"
    if "(tag, e') \<in> set (update_entry tag (\<lambda>e. e\<lparr>processingStartTime := Some now\<rparr>)
          (eventsInFlight s))" for e'
    using update_entry_at[OF d that] by auto
  then have 1: "processingStarted tag (onEventProcessingStart now tag s)"
    by (simp add: eq processingStarted_def)
  from assms(3) have "tag \<in> fst ` set (eventsInFlight s)" by (rule rev_image_eqI) simp
  with b have "tag \<le> sCurrentEventTag s" by blast
  then have 2: "tag \<le> sCurrentEventTag (onEventProcessingStart now tag s)"
    by (simp add: eq)
  from 1 loggerInv_onEventProcessingStart[OF assms(1)] 2 show ?thesis by (intro conjI)
qed

text \<open>
  Claim C9. Four facts.
  \<^item> In the debug build no state a logger reaches holds a record with
    \<open>processingEndTime\<close> set and \<open>processingStartTime\<close> unset.
  \<^item> In the debug build \<^verbatim>\<open>onEventProcessingEnd\<close> on a tracked tag whose record has no
    \<open>processingStartTime\<close> fails its assertion.
  \<^item> In either build, once \<^verbatim>\<open>onEventProcessingStart\<close> has been called for a tracked tag,
    then after any further calls that return \<^verbatim>\<open>onEventProcessingEnd\<close> for that tag returns
    without a failed assertion.
  \<^item> In either build every call that returns keeps the property of the first item,
    provided that an \<^verbatim>\<open>onEventProcessingEnd\<close> is only called for a tag whose records
    have \<open>processingStartTime\<close> set.
\<close>

theorem processing_end_after_start:
  "(reachable hash True s \<longrightarrow> processingOrdered s) \<and>
   (reporterAlive s \<and> distinct (map fst (eventsInFlight s)) \<and>
    (tag, e) \<in> set (eventsInFlight s) \<and> processingStartTime e = None \<longrightarrow>
      onEventProcessingEnd True now tag s = Inl AssertionFailed) \<and>
   (reachable hash debug s \<and> reporterAlive s \<and> (tag, e) \<in> set (eventsInFlight s) \<and>
    run hash debug cs (onEventProcessingStart now tag s) = Inr reached \<longrightarrow>
      (\<exists>s2. onEventProcessingEnd debug now' tag reached = Inr s2)) \<and>
   (processingOrdered s \<and> distinct (map fst (eventsInFlight s)) \<and>
    (\<forall>tag now. c = OnEventProcessingEnd tag now \<longrightarrow> processingStarted tag s) \<and>
    step hash debug c s = Inr s' \<longrightarrow> processingOrdered s')"
proof (intro conjI impI)
  assume "reachable hash True s"
  then obtain cs alive n where r: "run hash True cs (newLogger alive n) = Inr s"
    by (auto simp: reachable_def)
  have "processingOrdered (newLogger alive n)"
    by (simp add: processingOrdered_def newLogger_def)
  from ordered_run_debug[OF this loggerInv_newLogger r] show "processingOrdered s" .
next
  assume a: "reporterAlive s \<and> distinct (map fst (eventsInFlight s)) \<and>
    (tag, e) \<in> set (eventsInFlight s) \<and> processingStartTime e = None"
  then have m: "map_of (eventsInFlight s) tag = Some e" by (simp add: map_of_distinct)
  from a have "reporterAlive s" and "processingStartTime e = None" by simp_all
  then show "onEventProcessingEnd True now tag s = Inl AssertionFailed"
    unfolding onEventProcessingEnd_def m by (simp add: react_native_assert_def)
next
  assume a: "reachable hash debug s \<and> reporterAlive s \<and> (tag, e) \<in> set (eventsInFlight s) \<and>
    run hash debug cs (onEventProcessingStart now tag s) = Inr reached"
  then have "reachable hash debug s" by (rule conjunct1)
  then have inv: "loggerInv s" by (rule loggerInv_reachable)
  from a have alive: "reporterAlive s" and m: "(tag, e) \<in> set (eventsInFlight s)"
    and r: "run hash debug cs (onEventProcessingStart now tag s) = Inr reached" by simp_all
  from onEventProcessingStart_started[OF inv alive m, of now]
  have 1: "processingStarted tag (onEventProcessingStart now tag s)"
    and 2: "loggerInv (onEventProcessingStart now tag s)"
    and 3: "tag \<le> sCurrentEventTag (onEventProcessingStart now tag s)" by simp_all
  from started_run[OF 2 3 1 r] have "processingStarted tag reached" .
  then show "\<exists>s2. onEventProcessingEnd debug now' tag reached = Inr s2"
    by (rule onEventProcessingEnd_started)
next
  assume a: "processingOrdered s \<and> distinct (map fst (eventsInFlight s)) \<and>
    (\<forall>tag now. c = OnEventProcessingEnd tag now \<longrightarrow> processingStarted tag s) \<and>
    step hash debug c s = Inr s'"
  then have 1: "processingOrdered s" and 2: "distinct (map fst (eventsInFlight s))"
    and 3: "step hash debug c s = Inr s'"
    and 4: "debug \<or> (\<forall>tag now. c = OnEventProcessingEnd tag now \<longrightarrow> processingStarted tag s)"
    by simp_all
  from ordered_step[OF 1 2 3 4] show "processingOrdered s'" .
qed

theorem processing_end_after_start_witness:
  "reachable std_hash True twoLogger \<and> processingOrdered twoLogger \<and>
   reporterAlive twoLogger \<and> distinct (map fst (eventsInFlight twoLogger)) \<and>
   (2, unprocessedClick) \<in> set (eventsInFlight twoLogger) \<and>
   processingStartTime unprocessedClick = None \<and>
   onEventProcessingEnd True 14 2 twoLogger = Inl AssertionFailed \<and>
   run std_hash True [] (onEventProcessingStart 14 2 twoLogger) =
     Inr (onEventProcessingStart 14 2 twoLogger) \<and>
   (\<exists>s2. onEventProcessingEnd True 15 2 (onEventProcessingStart 14 2 twoLogger) = Inr s2) \<and>
   processingStarted 1 twoLogger \<and>
   step std_hash True (OnEventProcessingEnd 1 20) twoLogger =
     Inr (twoLogger\<lparr>eventsInFlight :=
            [(2, unprocessedClick), (1, processedClick\<lparr>processingEndTime := Some 20\<rparr>)]\<rparr>) \<and>
   processingOrdered (twoLogger\<lparr>eventsInFlight :=
            [(2, unprocessedClick), (1, processedClick\<lparr>processingEndTime := Some 20\<rparr>)]\<rparr>)"
proof -
  have h1: "reachable std_hash True twoLogger"
    by (rule reachable_twoLogger)
  have h2: "reporterAlive twoLogger"
    and h3: "distinct (map fst (eventsInFlight twoLogger))"
    and h4: "(2, unprocessedClick) \<in> set (eventsInFlight twoLogger)"
    by (simp_all add: twoLogger_def)
  have h5: "processingStartTime unprocessedClick = None"
    by (simp add: unprocessedClick_def newEventEntry_def)
  have h6: "run std_hash True [] (onEventProcessingStart 14 2 twoLogger) =
     Inr (onEventProcessingStart 14 2 twoLogger)"
    by simp
  have h7: "processingStarted 1 twoLogger"
    by (simp add: processingStarted_def twoLogger_def processedClick_def)
  have h8: "step std_hash True (OnEventProcessingEnd 1 20) twoLogger =
     Inr (twoLogger\<lparr>eventsInFlight :=
            [(2, unprocessedClick), (1, processedClick\<lparr>processingEndTime := Some 20\<rparr>)]\<rparr>)"
    by (simp add: onEventProcessingEnd_def twoLogger_def processedClick_def
        react_native_assert_def)
  have h9: "\<forall>tag now. OnEventProcessingEnd 1 20 = OnEventProcessingEnd tag now \<longrightarrow>
      processingStarted tag twoLogger"
    using h7 by simp
  note inst = processing_end_after_start [where hash = std_hash and s = twoLogger
      and tag = 2 and e = unprocessedClick and now = 14 and debug = True and cs = "[]"
      and reached = "onEventProcessingStart 14 2 twoLogger" and now' = 15
      and c = "OnEventProcessingEnd 1 20"
      and s' = "twoLogger\<lparr>eventsInFlight :=
            [(2, unprocessedClick), (1, processedClick\<lparr>processingEndTime := Some 20\<rparr>)]\<rparr>"]
  from inst h1 have c1: "processingOrdered twoLogger"
    by blast
  from inst h2 h3 h4 h5 have c2: "onEventProcessingEnd True 14 2 twoLogger = Inl AssertionFailed"
    by blast
  from inst h1 h2 h4 h6
  have c3: "\<exists>s2. onEventProcessingEnd True 15 2 (onEventProcessingStart 14 2 twoLogger) = Inr s2"
    by blast
  from inst c1 h3 h9 h8
  have c4: "processingOrdered (twoLogger\<lparr>eventsInFlight :=
            [(2, unprocessedClick), (1, processedClick\<lparr>processingEndTime := Some 20\<rparr>)]\<rparr>)"
    by blast
  from h1 c1 h2 h3 h4 h5 c2 h6 c3 h7 h8 c4 show ?thesis by (intro conjI)
qed

text \<open>Without the assertion and without the precondition the order can be lost: in the
  release build, \<^verbatim>\<open>onEventProcessingEnd\<close> right after \<^verbatim>\<open>onEventStart\<close> sets
  \<open>processingEndTime\<close> on a record that has no \<open>processingStartTime\<close>.\<close>

lemma release_build_unordered:
  "\<exists>s. run std_hash False
          [OnEventStart ''topClick'' None None 10, OnEventProcessingEnd 1 12]
          (newLogger True 0) = Inr s \<and> \<not> processingOrdered s"
  by (simp add: newLogger_def onEventStart_def find_supported_topClick createEventTag_def
      emplace_def newEventEntry_def onEventProcessingEnd_def react_native_assert_def
      processingOrdered_def)

section \<open>Starting an event\<close>

lemma getSupportedEvents_std_hash:
  "getSupportedEvents std_hash =
    [(StrKey 9036610862640196907, ''auxclick''),
     (StrKey 13510909223856792142, ''click''),
     (StrKey 16323281725996346445, ''contextmenu''),
     (StrKey 13044398178297911447, ''dblclick''),
     (StrKey 8485741601115641068, ''mousedown''),
     (StrKey 12057179684777956786, ''mouseenter''),
     (StrKey 18349288131304994658, ''mouseleave''),
     (StrKey 7788550906752408400, ''mouseout''),
     (StrKey 851693576165609551, ''mouseover''),
     (StrKey 399657204995632055, ''mouseup''),
     (StrKey 2886666428204340373, ''pointerover''),
     (StrKey 3309300975494090201, ''pointerenter''),
     (StrKey 15545894968684952287, ''pointerdown''),
     (StrKey 16894254827550094969, ''pointerup''),
     (StrKey 4170279255129637850, ''pointercancel''),
     (StrKey 15688423879321298151, ''pointerout''),
     (StrKey 10937673251108397362, ''pointerleave''),
     (StrKey 18259171256456380283, ''gotpointercapture''),
     (StrKey 12224705243239627416, ''lostpointercapture''),
     (StrKey 12453377175131537349, ''touchstart''),
     (StrKey 12541525356874204520, ''touchend''),
     (StrKey 9113370586054742139, ''touchcancel''),
     (StrKey 15392976298208124574, ''keydown''),
     (StrKey 14777173219487587680, ''keypress''),
     (StrKey 8957770390883956316, ''keyup''),
     (StrKey 5602232128575196737, ''beforeinput''),
     (StrKey 4790702861830880395, ''input''),
     (StrKey 13454247488130762169, ''compositionstart''),
     (StrKey 10137677274396018052, ''compositionupdate''),
     (StrKey 233134349017578652, ''compositionend''),
     (StrKey 11201669343293975073, ''dragstart''),
     (StrKey 6433826724572420810, ''dragend''),
     (StrKey 9161660454757979426, ''dragenter''),
     (StrKey 6089488018236194870, ''dragleave''),
     (StrKey 17891800498431444819, ''dragover''),
     (StrKey 340125051676623313, ''drop'')]"
  by (simp add: getSupportedEvents_def SUPPORTED_EVENTS_def mkStrKey_def std_hash_registered)

lemma std_hash_distinct: "distinct (map fst (getSupportedEvents std_hash))"
  by (simp add: getSupportedEvents_std_hash)

lemma std_hash_unsupportedEvent: "std_hash ''unsupportedEvent'' = 14280669506129593375"
  by code_simp

lemma std_hash_ezrbaaaakOWYE1jG: "std_hash ''ezrbaaaakOWYE1jG'' = 13510909223856792142"
  by code_simp

lemma std_hash_topDaekozP3pkbE6: "std_hash ''topDaekozP3pkbE6'' = 340125051676623313"
  by code_simp

lemma keys_getSupportedEvents:
  "fst ` set (getSupportedEvents hash) = (\<lambda>raw. StrKey (hash raw)) ` fst ` set SUPPORTED_EVENTS"
  by (force simp: getSupportedEvents_def mkStrKey_def image_iff)

lemma find_supported_None_iff:
  "find_supported hash nm = None \<longleftrightarrow> hash nm \<notin> hash ` fst ` set SUPPORTED_EVENTS"
  unfolding find_supported_def map_of_eq_None_iff keys_getSupportedEvents mkStrKey_def
  by auto

lemma find_supported_registered:
  assumes "(raw, public) \<in> set SUPPORTED_EVENTS"
  shows "\<exists>reportedName. find_supported hash raw = Some reportedName \<and>
           (distinct (map fst (getSupportedEvents hash)) \<longrightarrow> reportedName = public)"
proof -
  from assms have "hash raw \<in> hash ` fst ` set SUPPORTED_EVENTS"
    by (metis fst_conv imageI)
  then have "find_supported hash raw \<noteq> None"
    by (simp add: find_supported_None_iff)
  then obtain reportedName where f: "find_supported hash raw = Some reportedName"
    by auto
  from assms have m: "(mkStrKey hash raw, public) \<in> set (getSupportedEvents hash)"
    by (force simp: getSupportedEvents_def)
  have "reportedName = public" if "distinct (map fst (getSupportedEvents hash))"
    using map_of_is_SomeI[OF that m] f by (simp add: find_supported_def)
  with f show ?thesis by blast
qed

lemma find_supported_same_hash:
  "hash nm = hash raw \<Longrightarrow> find_supported hash nm = find_supported hash raw"
  by (simp add: find_supported_def mkStrKey_def)

lemma fresh_tag:
  assumes "loggerInv s"
  shows "Suc (sCurrentEventTag s) \<notin> fst ` set (eventsInFlight s)"
proof
  assume a: "Suc (sCurrentEventTag s) \<in> fst ` set (eventsInFlight s)"
  from assms have "\<forall>t \<in> fst ` set (eventsInFlight s). t \<le> sCurrentEventTag s"
    unfolding loggerInv_def by (elim conjE)
  then have "Suc (sCurrentEventTag s) \<le> sCurrentEventTag s" using a by (rule bspec)
  then show False by simp
qed

text \<open>
  Claim C5, amended. In every state a logger reaches, with the sink alive:
  \<^item> for each of the 36 registered raw names \<^verbatim>\<open>onEventStart\<close> returns the next tag, which
    is not the empty tag and was not in the table, and the state it returns differs from the
    one before by the counter and by exactly one new record under that tag, made of the
    public name the registry gives, the target, the start time (the explicit time stamp
    when there is one, the clock otherwise), no processing time stamps, no mark and no
    interaction id; the public name is the one registered for the raw name whenever no two
    keys of the registry are equal;
  \<^item> for every raw name whose hash is the hash of no registered name,
    \<^verbatim>\<open>onEventStart\<close> returns the empty tag and the state unchanged.
\<close>

theorem onEventStart_supported:
  assumes "reachable hash debug s" and "reporterAlive s"
  shows "((raw, public) \<in> set SUPPORTED_EVENTS \<longrightarrow>
           (\<exists>reportedName.
              find_supported hash raw = Some reportedName \<and>
              (distinct (map fst (getSupportedEvents hash)) \<longrightarrow> reportedName = public) \<and>
              Suc (sCurrentEventTag s) \<noteq> EMPTY_EVENT_TAG \<and>
              Suc (sCurrentEventTag s) \<notin> fst ` set (eventsInFlight s) \<and>
              onEventStart hash raw tgt ts now s =
                (Suc (sCurrentEventTag s),
                 s\<lparr>sCurrentEventTag := Suc (sCurrentEventTag s),
                   eventsInFlight :=
                     (Suc (sCurrentEventTag s),
                      \<lparr>name = reportedName, target = tgt,
                       startTime = (case ts of Some t \<Rightarrow> t | None \<Rightarrow> now),
                       processingStartTime = None, processingEndTime = None,
                       isWaitingForMount = False, interactionId = None\<rparr>) #
                     eventsInFlight s\<rparr>))) \<and>
         (hash nm \<notin> hash ` fst ` set SUPPORTED_EVENTS \<longrightarrow>
            onEventStart hash nm tgt ts now s = (EMPTY_EVENT_TAG, s))"
proof (intro conjI impI)
  assume reg: "(raw, public) \<in> set SUPPORTED_EVENTS"
  from find_supported_registered[OF reg, of hash] obtain reportedName
    where f: "find_supported hash raw = Some reportedName"
      and p: "distinct (map fst (getSupportedEvents hash)) \<longrightarrow> reportedName = public"
    by blast
  from assms(1) have "loggerInv s" by (rule loggerInv_reachable)
  then have fresh: "Suc (sCurrentEventTag s) \<notin> fst ` set (eventsInFlight s)"
    by (rule fresh_tag)
  have nz: "Suc (sCurrentEventTag s) \<noteq> EMPTY_EVENT_TAG"
    by (simp add: EMPTY_EVENT_TAG_def)
  from assms(2) f fresh have r: "onEventStart hash raw tgt ts now s =
                (Suc (sCurrentEventTag s),
                 s\<lparr>sCurrentEventTag := Suc (sCurrentEventTag s),
                   eventsInFlight :=
                     (Suc (sCurrentEventTag s),
                      \<lparr>name = reportedName, target = tgt,
                       startTime = (case ts of Some t \<Rightarrow> t | None \<Rightarrow> now),
                       processingStartTime = None, processingEndTime = None,
                       isWaitingForMount = False, interactionId = None\<rparr>) #
                     eventsInFlight s\<rparr>)"
    by (simp add: onEventStart_def createEventTag_def emplace_def newEventEntry_def)
  show "\<exists>reportedName.
              find_supported hash raw = Some reportedName \<and>
              (distinct (map fst (getSupportedEvents hash)) \<longrightarrow> reportedName = public) \<and>
              Suc (sCurrentEventTag s) \<noteq> EMPTY_EVENT_TAG \<and>
              Suc (sCurrentEventTag s) \<notin> fst ` set (eventsInFlight s) \<and>
              onEventStart hash raw tgt ts now s =
                (Suc (sCurrentEventTag s),
                 s\<lparr>sCurrentEventTag := Suc (sCurrentEventTag s),
                   eventsInFlight :=
                     (Suc (sCurrentEventTag s),
                      \<lparr>name = reportedName, target = tgt,
                       startTime = (case ts of Some t \<Rightarrow> t | None \<Rightarrow> now),
                       processingStartTime = None, processingEndTime = None,
                       isWaitingForMount = False, interactionId = None\<rparr>) #
                     eventsInFlight s\<rparr>)"
    by (rule exI[of _ reportedName]) (intro conjI f p nz fresh r)
next
  assume "hash nm \<notin> hash ` fst ` set SUPPORTED_EVENTS"
  then have "find_supported hash nm = None"
    by (simp add: find_supported_None_iff)
  then show "onEventStart hash nm tgt ts now s = (EMPTY_EVENT_TAG, s)"
    by (simp add: onEventStart_def EMPTY_EVENT_TAG_def)
qed

lemma topClick_registered: "(''topClick'', ''click'') \<in> set SUPPORTED_EVENTS"
  by (simp add: SUPPORTED_EVENTS_def)

lemma unsupportedEvent_unregistered:
  "std_hash ''unsupportedEvent'' \<notin> std_hash ` fst ` set SUPPORTED_EVENTS"
proof -
  have "find_supported std_hash ''unsupportedEvent'' = None"
    by (simp add: find_supported_def getSupportedEvents_std_hash mkStrKey_def
        std_hash_unsupportedEvent)
  then show ?thesis unfolding find_supported_None_iff .
qed

theorem onEventStart_supported_witness:
  "reachable std_hash True clickLogger \<and> reporterAlive clickLogger \<and>
   (''topClick'', ''click'') \<in> set SUPPORTED_EVENTS \<and>
   distinct (map fst (getSupportedEvents std_hash)) \<and>
   onEventStart std_hash ''topClick'' None (Some 5) 13 clickLogger = (2, twoLogger) \<and>
   2 \<noteq> EMPTY_EVENT_TAG \<and>
   std_hash ''unsupportedEvent'' \<notin> std_hash ` fst ` set SUPPORTED_EVENTS \<and>
   onEventStart std_hash ''unsupportedEvent'' None (Some 5) 13 clickLogger =
     (EMPTY_EVENT_TAG, clickLogger)"
proof -
  have h1: "reachable std_hash True clickLogger"
    by (rule reachable_clickLogger)
  have h2: "reporterAlive clickLogger"
    by (simp add: clickLogger_def)
  note h3 = topClick_registered
  note h4 = std_hash_distinct
  note h5 = unsupportedEvent_unregistered
  note inst = onEventStart_supported [OF h1 h2, where raw = "''topClick''"
      and public = "''click''" and tgt = None and ts = "Some 5" and now = 13
      and nm = "''unsupportedEvent''"]
  from inst[THEN conjunct1, THEN mp, OF h3] obtain reportedName
    where n: "distinct (map fst (getSupportedEvents std_hash)) \<longrightarrow> reportedName = ''click''"
      and r: "onEventStart std_hash ''topClick'' None (Some 5) 13 clickLogger =
      (Suc (sCurrentEventTag clickLogger),
       clickLogger\<lparr>sCurrentEventTag := Suc (sCurrentEventTag clickLogger),
         eventsInFlight :=
           (Suc (sCurrentEventTag clickLogger),
            \<lparr>name = reportedName, target = None,
             startTime = (case Some 5 of Some t \<Rightarrow> t | None \<Rightarrow> 13),
             processingStartTime = None, processingEndTime = None,
             isWaitingForMount = False, interactionId = None\<rparr>) #
           eventsInFlight clickLogger\<rparr>)"
    by (elim exE conjE)
  from n[THEN mp, OF h4] r
  have "onEventStart std_hash ''topClick'' None (Some 5) 13 clickLogger =
      (Suc (sCurrentEventTag clickLogger),
       clickLogger\<lparr>sCurrentEventTag := Suc (sCurrentEventTag clickLogger),
         eventsInFlight :=
           (Suc (sCurrentEventTag clickLogger),
            \<lparr>name = ''click'', target = None,
             startTime = (case Some 5 of Some t \<Rightarrow> t | None \<Rightarrow> 13),
             processingStartTime = None, processingEndTime = None,
             isWaitingForMount = False, interactionId = None\<rparr>) #
           eventsInFlight clickLogger\<rparr>)"
    by simp
  then have c1: "onEventStart std_hash ''topClick'' None (Some 5) 13 clickLogger = (2, twoLogger)"
    by (simp add: clickLogger_def twoLogger_def unprocessedClick_def newEventEntry_def)
  have c2: "(2::nat) \<noteq> EMPTY_EVENT_TAG"
    by (simp add: EMPTY_EVENT_TAG_def)
  have c3: "onEventStart std_hash ''unsupportedEvent'' None (Some 5) 13 clickLogger =
     (EMPTY_EVENT_TAG, clickLogger)"
    by (rule inst[THEN conjunct2, THEN mp, OF h5])
  from h1 h2 h3 h4 c1 c2 h5 c3 show ?thesis by (intro conjI)
qed

text \<open>
  Claim C5, as it stands, does not hold for every unsupported raw name. The name
  \<^verbatim>\<open>topDaekozP3pkbE6\<close> is not registered, but \<^verbatim>\<open>std::hash\<close> gives it the value it gives
  \<^verbatim>\<open>topDrop\<close>. In the state reached after one processed click, with the sink alive,
  \<^verbatim>\<open>onEventStart\<close> returns the tag 2 for it, not the empty tag, and adds a record named
  \<^verbatim>\<open>drop\<close> to the table.
\<close>

theorem onEventStart_unsupported_counterexample:
  "''topDaekozP3pkbE6'' \<notin> fst ` set SUPPORTED_EVENTS \<and>
   reachable std_hash True clickLogger \<and> reporterAlive clickLogger \<and>
   onEventStart std_hash ''topDaekozP3pkbE6'' None None 13 clickLogger =
     (2, clickLogger\<lparr>sCurrentEventTag := 2,
           eventsInFlight := (2, newEventEntry ''drop'' None 13) # eventsInFlight clickLogger\<rparr>) \<and>
   (2::nat) \<noteq> EMPTY_EVENT_TAG"
proof -
  have 1: "''topDaekozP3pkbE6'' \<notin> fst ` set SUPPORTED_EVENTS"
    by (simp add: SUPPORTED_EVENTS_def)
  have 2: "reachable std_hash True clickLogger"
    by (rule reachable_clickLogger)
  have 3: "reporterAlive clickLogger"
    by (simp add: clickLogger_def)
  have f: "find_supported std_hash ''topDaekozP3pkbE6'' = Some ''drop''"
    by (simp add: find_supported_def getSupportedEvents_std_hash mkStrKey_def
        std_hash_topDaekozP3pkbE6)
  have 4: "onEventStart std_hash ''topDaekozP3pkbE6'' None None 13 clickLogger =
     (2, clickLogger\<lparr>sCurrentEventTag := 2,
           eventsInFlight := (2, newEventEntry ''drop'' None 13) # eventsInFlight clickLogger\<rparr>)"
    by (simp add: onEventStart_def f clickLogger_def createEventTag_def emplace_def)
  have 5: "(2::nat) \<noteq> EMPTY_EVENT_TAG"
    by (simp add: EMPTY_EVENT_TAG_def)
  from 1 2 3 4 5 show ?thesis by (intro conjI)
qed

section \<open>The registry is keyed by the hash of the name\<close>

text \<open>
  Claim C6, as it stands, does not hold. The name \<^verbatim>\<open>ezrbaaaakOWYE1jG\<close> is not registered,
  but \<^verbatim>\<open>std::hash\<close> gives it the value it gives \<^verbatim>\<open>topClick\<close>. On a new logger with the
  sink alive \<^verbatim>\<open>onEventStart\<close> returns the tag 1 for it, not the empty tag, and tracks it as
  a \<^verbatim>\<open>click\<close>.
\<close>

theorem onEventStart_exact_match_counterexample:
  "''ezrbaaaakOWYE1jG'' \<notin> fst ` set SUPPORTED_EVENTS \<and>
   std_hash ''ezrbaaaakOWYE1jG'' = std_hash ''topClick'' \<and>
   onEventStart std_hash ''ezrbaaaakOWYE1jG'' None None 10 (newLogger True 0) =
     (1, \<lparr>reporterAlive = True, reported = [],
          eventsInFlight = [(1, newEventEntry ''click'' None 10)],
          sCurrentEventTag = 1\<rparr>) \<and>
   (1::nat) \<noteq> EMPTY_EVENT_TAG"
proof -
  have 1: "''ezrbaaaakOWYE1jG'' \<notin> fst ` set SUPPORTED_EVENTS"
    by (simp add: SUPPORTED_EVENTS_def)
  have 2: "std_hash ''ezrbaaaakOWYE1jG'' = std_hash ''topClick''"
    by (simp add: std_hash_ezrbaaaakOWYE1jG std_hash_topClick)
  from find_supported_same_hash[where hash = std_hash and nm = "''ezrbaaaakOWYE1jG''"
      and raw = "''topClick''", OF 2] find_supported_topClick
  have f: "find_supported std_hash ''ezrbaaaakOWYE1jG'' = Some ''click''"
    by simp
  have 3: "onEventStart std_hash ''ezrbaaaakOWYE1jG'' None None 10 (newLogger True 0) =
     (1, \<lparr>reporterAlive = True, reported = [],
          eventsInFlight = [(1, newEventEntry ''click'' None 10)],
          sCurrentEventTag = 1\<rparr>)"
    by (simp add: onEventStart_def f newLogger_def createEventTag_def emplace_def)
  have 4: "(1::nat) \<noteq> EMPTY_EVENT_TAG"
    by (simp add: EMPTY_EVENT_TAG_def)
  from 1 2 3 4 show ?thesis by (intro conjI)
qed

text \<open>
  Claim C6, amended. \<^verbatim>\<open>onEventStart\<close> classifies the raw name by its hash, since a
  \<^verbatim>\<open>StrKey\<close> keeps and compares nothing else.
  \<^item> A raw name whose hash is the hash of no registered name gets the empty tag and the
    state stays as it is.
  \<^item> With the sink alive, a raw name whose hash is the hash of a registered name is
    treated exactly as that registered name is, equal strings or not, and the tag it gets
    is not the empty tag.
  \<^item> With the sink alive and in every state a logger reaches, such a name is tracked: it
    gets the next tag, and the state returned differs from the one before by the counter
    and by exactly one new record under that tag, which carries the public name the
    registry gives for the registered name.
\<close>

theorem onEventStart_classifies_by_hash:
  "(hash nm \<notin> hash ` fst ` set SUPPORTED_EVENTS \<longrightarrow>
      onEventStart hash nm tgt ts now s = (EMPTY_EVENT_TAG, s)) \<and>
   (reporterAlive s \<and> (raw, public) \<in> set SUPPORTED_EVENTS \<and> hash other = hash raw \<longrightarrow>
      onEventStart hash other tgt ts now s = onEventStart hash raw tgt ts now s \<and>
      fst (onEventStart hash other tgt ts now s) \<noteq> EMPTY_EVENT_TAG) \<and>
   (reachable hash debug s \<and> reporterAlive s \<and> (raw, public) \<in> set SUPPORTED_EVENTS \<and>
    hash other = hash raw \<longrightarrow>
      (\<exists>reportedName.
         find_supported hash raw = Some reportedName \<and>
         Suc (sCurrentEventTag s) \<notin> fst ` set (eventsInFlight s) \<and>
         onEventStart hash other tgt ts now s =
           (Suc (sCurrentEventTag s),
            s\<lparr>sCurrentEventTag := Suc (sCurrentEventTag s),
              eventsInFlight :=
                (Suc (sCurrentEventTag s),
                 \<lparr>name = reportedName, target = tgt,
                  startTime = (case ts of Some t \<Rightarrow> t | None \<Rightarrow> now),
                  processingStartTime = None, processingEndTime = None,
                  isWaitingForMount = False, interactionId = None\<rparr>) #
                eventsInFlight s\<rparr>)))"
proof (intro conjI impI)
  assume "hash nm \<notin> hash ` fst ` set SUPPORTED_EVENTS"
  then have "find_supported hash nm = None"
    by (simp add: find_supported_None_iff)
  then show "onEventStart hash nm tgt ts now s = (EMPTY_EVENT_TAG, s)"
    by (simp add: onEventStart_def EMPTY_EVENT_TAG_def)
next
  assume a: "reporterAlive s \<and> (raw, public) \<in> set SUPPORTED_EVENTS \<and> hash other = hash raw"
  then have "hash other = hash raw" by (elim conjE)
  then have f: "find_supported hash other = find_supported hash raw"
    by (rule find_supported_same_hash)
  then show "onEventStart hash other tgt ts now s = onEventStart hash raw tgt ts now s"
    by (simp add: onEventStart_def)
next
  assume a: "reporterAlive s \<and> (raw, public) \<in> set SUPPORTED_EVENTS \<and> hash other = hash raw"
  then have "hash other = hash raw" by (elim conjE)
  then have f: "find_supported hash other = find_supported hash raw"
    by (rule find_supported_same_hash)
  from a have "(raw, public) \<in> set SUPPORTED_EVENTS" by simp
  from find_supported_registered[OF this, of hash] f obtain reportedName
    where "find_supported hash other = Some reportedName" by auto
  with a show "fst (onEventStart hash other tgt ts now s) \<noteq> EMPTY_EVENT_TAG"
    by (simp add: onEventStart_def createEventTag_def EMPTY_EVENT_TAG_def)
next
  assume a: "reachable hash debug s \<and> reporterAlive s \<and> (raw, public) \<in> set SUPPORTED_EVENTS \<and>
    hash other = hash raw"
  then have r: "reachable hash debug s" and alive: "reporterAlive s"
    and reg: "(raw, public) \<in> set SUPPORTED_EVENTS" and h: "hash other = hash raw"
    by simp_all
  from h have f: "find_supported hash other = find_supported hash raw"
    by (rule find_supported_same_hash)
  from find_supported_registered[OF reg, of hash] obtain reportedName
    where n: "find_supported hash raw = Some reportedName" by auto
  from r have "loggerInv s" by (rule loggerInv_reachable)
  then have fresh: "Suc (sCurrentEventTag s) \<notin> fst ` set (eventsInFlight s)"
    by (rule fresh_tag)
  from alive f n fresh have e: "onEventStart hash other tgt ts now s =
           (Suc (sCurrentEventTag s),
            s\<lparr>sCurrentEventTag := Suc (sCurrentEventTag s),
              eventsInFlight :=
                (Suc (sCurrentEventTag s),
                 \<lparr>name = reportedName, target = tgt,
                  startTime = (case ts of Some t \<Rightarrow> t | None \<Rightarrow> now),
                  processingStartTime = None, processingEndTime = None,
                  isWaitingForMount = False, interactionId = None\<rparr>) #
                eventsInFlight s\<rparr>)"
    by (simp add: onEventStart_def createEventTag_def emplace_def newEventEntry_def)
  show "\<exists>reportedName.
         find_supported hash raw = Some reportedName \<and>
         Suc (sCurrentEventTag s) \<notin> fst ` set (eventsInFlight s) \<and>
         onEventStart hash other tgt ts now s =
           (Suc (sCurrentEventTag s),
            s\<lparr>sCurrentEventTag := Suc (sCurrentEventTag s),
              eventsInFlight :=
                (Suc (sCurrentEventTag s),
                 \<lparr>name = reportedName, target = tgt,
                  startTime = (case ts of Some t \<Rightarrow> t | None \<Rightarrow> now),
                  processingStartTime = None, processingEndTime = None,
                  isWaitingForMount = False, interactionId = None\<rparr>) #
                eventsInFlight s\<rparr>)"
    by (rule exI[of _ reportedName]) (intro conjI n fresh e)
qed

theorem onEventStart_classifies_by_hash_witness:
  "std_hash ''unsupportedEvent'' \<notin> std_hash ` fst ` set SUPPORTED_EVENTS \<and>
   onEventStart std_hash ''unsupportedEvent'' None None 13 clickLogger =
     (EMPTY_EVENT_TAG, clickLogger) \<and>
   reachable std_hash True clickLogger \<and> reporterAlive clickLogger \<and>
   (''topClick'', ''click'') \<in> set SUPPORTED_EVENTS \<and>
   std_hash ''ezrbaaaakOWYE1jG'' = std_hash ''topClick'' \<and>
   onEventStart std_hash ''ezrbaaaakOWYE1jG'' None None 13 clickLogger =
     onEventStart std_hash ''topClick'' None None 13 clickLogger \<and>
   fst (onEventStart std_hash ''ezrbaaaakOWYE1jG'' None None 13 clickLogger) \<noteq>
     EMPTY_EVENT_TAG \<and>
   onEventStart std_hash ''ezrbaaaakOWYE1jG'' None None 13 clickLogger =
     (2, clickLogger\<lparr>sCurrentEventTag := 2,
           eventsInFlight := (2, newEventEntry ''click'' None 13) # eventsInFlight clickLogger\<rparr>)"
proof -
  note h1 = unsupportedEvent_unregistered
  have h2: "reporterAlive clickLogger"
    by (simp add: clickLogger_def)
  note h3 = topClick_registered
  have h4: "std_hash ''ezrbaaaakOWYE1jG'' = std_hash ''topClick''"
    by (simp add: std_hash_ezrbaaaakOWYE1jG std_hash_topClick)
  have h5: "reachable std_hash True clickLogger"
    by (rule reachable_clickLogger)
  note inst = onEventStart_classifies_by_hash [where hash = std_hash
      and nm = "''unsupportedEvent''" and tgt = None and ts = None and now = 13
      and s = clickLogger and raw = "''topClick''" and public = "''click''"
      and other = "''ezrbaaaakOWYE1jG''" and debug = True]
  have c1: "onEventStart std_hash ''unsupportedEvent'' None None 13 clickLogger =
      (EMPTY_EVENT_TAG, clickLogger)"
    by (rule inst[THEN conjunct1, THEN mp, OF h1])
  from h2 h3 h4 have h: "reporterAlive clickLogger \<and>
      (''topClick'', ''click'') \<in> set SUPPORTED_EVENTS \<and>
      std_hash ''ezrbaaaakOWYE1jG'' = std_hash ''topClick''"
    by (intro conjI)
  note both = inst[THEN conjunct2, THEN conjunct1, THEN mp, OF h]
  have c2: "onEventStart std_hash ''ezrbaaaakOWYE1jG'' None None 13 clickLogger =
     onEventStart std_hash ''topClick'' None None 13 clickLogger"
    by (rule both[THEN conjunct1])
  have c3: "fst (onEventStart std_hash ''ezrbaaaakOWYE1jG'' None None 13 clickLogger) \<noteq>
      EMPTY_EVENT_TAG"
    by (rule both[THEN conjunct2])
  from h5 h2 h3 h4 have h': "reachable std_hash True clickLogger \<and> reporterAlive clickLogger \<and>
      (''topClick'', ''click'') \<in> set SUPPORTED_EVENTS \<and>
      std_hash ''ezrbaaaakOWYE1jG'' = std_hash ''topClick''"
    by (intro conjI)
  from inst[THEN conjunct2, THEN conjunct2, THEN mp, OF h'] obtain reportedName
    where n: "find_supported std_hash ''topClick'' = Some reportedName"
      and e: "onEventStart std_hash ''ezrbaaaakOWYE1jG'' None None 13 clickLogger =
           (Suc (sCurrentEventTag clickLogger),
            clickLogger\<lparr>sCurrentEventTag := Suc (sCurrentEventTag clickLogger),
              eventsInFlight :=
                (Suc (sCurrentEventTag clickLogger),
                 \<lparr>name = reportedName, target = None,
                  startTime = (case None of Some t \<Rightarrow> t | None \<Rightarrow> 13),
                  processingStartTime = None, processingEndTime = None,
                  isWaitingForMount = False, interactionId = None\<rparr>) #
                eventsInFlight clickLogger\<rparr>)"
    by (elim exE conjE)
  from n find_supported_topClick have "reportedName = ''click''" by simp
  with e have c4: "onEventStart std_hash ''ezrbaaaakOWYE1jG'' None None 13 clickLogger =
     (2, clickLogger\<lparr>sCurrentEventTag := 2,
           eventsInFlight := (2, newEventEntry ''click'' None 13) # eventsInFlight clickLogger\<rparr>)"
    by (simp add: clickLogger_def newEventEntry_def)
  from h1 c1 h5 h2 h3 h4 c2 c3 c4 show ?thesis by (intro conjI)
qed

end
